theory Spec2Isabelle
  imports Main "HOL-Library.Sublist"
begin

section \<open>JavaScript strings and values\<close>

text \<open>
  A JavaScript string is modelled as a \<^typ>\<open>string\<close>: each \<^typ>\<open>char\<close> stands for the
  code unit of the same number. The utilities of \<^verbatim>\<open>utils/string.ts\<close> guard against
  arguments that are not strings at run time (\<^verbatim>\<open>typeof text !== 'string'\<close>), so the values
  a caller can pass are modelled by \<open>jsval\<close>.
\<close>

datatype jsval =
    JUndefined
  | JNull
  | JBool bool
  | JNum int
  | JStr string
  | JObject

fun typeof_string :: "jsval \<Rightarrow> bool" where
  "typeof_string (JStr s) = True"
| "typeof_string v = False"

fun truthy :: "jsval \<Rightarrow> bool" where
  "truthy JUndefined = False"
| "truthy JNull = False"
| "truthy (JBool b) = b"
| "truthy (JNum n) = (n \<noteq> 0)"
| "truthy (JStr s) = (s \<noteq> [])"
| "truthy JObject = True"

text \<open>\<^verbatim>\<open>content.includes(p)\<close>: \<open>p\<close> occurs in \<open>content\<close> as a contiguous substring.\<close>

fun js_includes :: "string \<Rightarrow> string \<Rightarrow> bool" where
  "js_includes [] p = (p = [])"
| "js_includes (x # xs) p = (prefix p (x # xs) \<or> js_includes xs p)"

text \<open>The number of places at which \<open>p\<close> occurs in a string.\<close>

fun occurrences :: "string \<Rightarrow> string \<Rightarrow> nat" where
  "occurrences [] p = (if p = [] then 1 else 0)"
| "occurrences (x # xs) p = (if prefix p (x # xs) then 1 else 0) + occurrences xs p"

section \<open>The regular expressions the utilities build\<close>

text \<open>
  The patterns of \<^verbatim>\<open>utils/string.ts\<close> and \<^verbatim>\<open>utils/xml.ts\<close> are sequences of
  single characters and of character classes, starred or not (\<^verbatim>\<open>[^>]*\<close>,
  \<^verbatim>\<open>\s*\<close>, \<^verbatim>\<open>[^a-zA-Z]*\<close>, and \<^verbatim>\<open>[^"]+\<close>, which is \<^verbatim>\<open>[^"][^"]*\<close>); there is
  no alternation, and the one group is not referred to.
\<close>

datatype cls = NotGt | Space | NotAlpha | NotQuote

datatype item = Lit char | One cls | Star cls

definition is_alpha :: "char \<Rightarrow> bool" where
  "is_alpha c = (let n = (of_char c :: nat) in (97 \<le> n \<and> n \<le> 122) \<or> (65 \<le> n \<and> n \<le> 90))"

definition is_space :: "char \<Rightarrow> bool" where
  "is_space c = (let n = (of_char c :: nat) in (9 \<le> n \<and> n \<le> 13) \<or> n = 32 \<or> n = 160)"

text \<open>
  Canonicalisation under the \<^verbatim>\<open>i\<close> flag (no \<^verbatim>\<open>u\<close> flag): the code unit's upper case
  when that is again one code unit. Among the code units below 256 the ASCII letters and the
  Latin-1 letters \<open>0xE0..0xFE\<close> (without \<open>0xF7\<close>) move down by 32; the others are
  equal to no code unit but themselves.
\<close>

definition canon :: "char \<Rightarrow> char" where
  "canon c = (let n = (of_char c :: nat) in
     if (97 \<le> n \<and> n \<le> 122) \<or> (224 \<le> n \<and> n \<le> 254 \<and> n \<noteq> 247)
     then char_of (n - 32) else c)"

fun cls_has :: "cls \<Rightarrow> char \<Rightarrow> bool" where
  "cls_has NotGt c = (c \<noteq> CHR ''>'')"
| "cls_has Space c = is_space c"
| "cls_has NotAlpha c = (\<not> is_alpha c)"
| "cls_has NotQuote c = (c \<noteq> CHR 0x22)"

definition chr_eq :: "bool \<Rightarrow> char \<Rightarrow> char \<Rightarrow> bool" where
  "chr_eq ci c x = (if ci then canon c = canon x else c = x)"

text \<open>
  The backtracking matcher, anchored at the head of the string; \<open>ci\<close> is the \<^verbatim>\<open>i\<close> flag.
  A star is greedy: it first takes one more character and only when the rest of the pattern
  then fails does it stop. The result is what is left of the string after the match.
\<close>

fun rmatch :: "bool \<Rightarrow> item list \<Rightarrow> string \<Rightarrow> string option" where
  "rmatch ci [] s = Some s"
| "rmatch ci (Lit c # its) [] = None"
| "rmatch ci (Lit c # its) (x # xs) = (if chr_eq ci c x then rmatch ci its xs else None)"
| "rmatch ci (One k # its) [] = None"
| "rmatch ci (One k # its) (x # xs) = (if cls_has k x then rmatch ci its xs else None)"
| "rmatch ci (Star k # its) [] = rmatch ci its []"
| "rmatch ci (Star k # its) (x # xs) =
     (if cls_has k x
      then (case rmatch ci (Star k # its) xs of
              Some r \<Rightarrow> Some r
            | None \<Rightarrow> rmatch ci its (x # xs))
      else rmatch ci its (x # xs))"

text \<open>
  The replacement string of \<^verbatim>\<open>String.prototype.replace\<close> is a template: \<^verbatim>\<open>$$\<close> is a
  dollar sign, \<^verbatim>\<open>$&\<close> the matched text, \<^verbatim>\<open>$`\<close> the text before the match and
  \<^verbatim>\<open>$'\<close> the text after it. The patterns here have no capture group, so \<^verbatim>\<open>$1\<close> and
  \<^verbatim>\<open>$<\<close> stay as they are.
\<close>

fun expand :: "string \<Rightarrow> string \<Rightarrow> string \<Rightarrow> string \<Rightarrow> string" where
  "expand [] pre m post = []"
| "expand [c] pre m post = [c]"
| "expand (c # d # r) pre m post =
     (if c = CHR ''$'' then
        (if d = CHR ''$'' then CHR ''$'' # expand r pre m post
         else if d = CHR ''&'' then m @ expand r pre m post
         else if d = CHR 0x60 then pre @ expand r pre m post
         else if d = CHR 0x27 then post @ expand r pre m post
         else c # expand (d # r) pre m post)
      else c # expand (d # r) pre m post)"

text \<open>
  \<^verbatim>\<open>s.replace(regex, repl)\<close> with the \<^verbatim>\<open>g\<close> flag: scan from the left, replace each
  match and go on behind it; after an empty match go on one character further. \<open>pre\<close> is
  the part of the subject already passed.
\<close>

function replace_g :: "bool \<Rightarrow> item list \<Rightarrow> string \<Rightarrow> string \<Rightarrow> string \<Rightarrow> string" where
  "replace_g ci items repl pre s =
     (case rmatch ci items s of
        None \<Rightarrow> (case s of [] \<Rightarrow> [] | x # xs \<Rightarrow> x # replace_g ci items repl (pre @ [x]) xs)
      | Some rest \<Rightarrow>
          (if length s - length rest = 0
           then expand repl pre [] s @
                  (case s of [] \<Rightarrow> [] | x # xs \<Rightarrow> x # replace_g ci items repl (pre @ [x]) xs)
           else expand repl pre (take (length s - length rest) s) (drop (length s - length rest) s) @
                  replace_g ci items repl (pre @ take (length s - length rest) s)
                    (drop (length s - length rest) s)))"
  by pat_completeness auto
termination
  by (relation "measure (\<lambda>(ci, items, repl, pre, s). length s)") auto

declare replace_g.simps [simp del]

section \<open>String utilities (utils/string.ts)\<close>

text \<open>
  \<^verbatim>\<open>escapeRegExp\<close> puts a backslash before each of \<^verbatim>\<open>. * + ? ^ $ { } ( ) | [ ]\<close>
  and before the backslash.
\<close>

definition escapeRegExp :: "string \<Rightarrow> string" where
  \<open>escapeRegExp str =
     concat (map (\<lambda>c. if c \<in> set ''.*+?^${}()|[]'' \<or> c = CHR 0x5C then [CHR 0x5C, c] else [c]) str)\<close>

text \<open>
  \<^verbatim>\<open>new RegExp(escapeRegExp(search), 'g')\<close>: every character that the pattern syntax
  reads as an operator is escaped, so the pattern is the sequence of the characters of
  \<open>search\<close>, each standing for itself, compared case-sensitively.
\<close>

definition replaceAll_str :: "string \<Rightarrow> string \<Rightarrow> string \<Rightarrow> string" where
  "replaceAll_str str search replacement = replace_g False (map Lit search) replacement [] str"

text \<open>\<^verbatim>\<open>replaceAll\<close>: an argument that is not a string is handed back as it is.\<close>

fun replaceAll :: "jsval \<Rightarrow> string \<Rightarrow> string \<Rightarrow> jsval" where
  "replaceAll (JStr str) search replacement = JStr (replaceAll_str str search replacement)"
| "replaceAll v search replacement = v"

text \<open>The five replacements of \<^verbatim>\<open>escapeForXml\<close>, in the order of the source.\<close>

definition escape_chain :: "string \<Rightarrow> string" where
  \<open>escape_chain text =
     replace_g False [Lit (CHR 0x27)] ''&apos;'' []
       (replace_g False [Lit (CHR 0x22)] ''&quot;'' []
         (replace_g False [Lit CHR ''>''] ''&gt;'' []
           (replace_g False [Lit CHR ''<''] ''&lt;'' []
             (replace_g False [Lit CHR ''&''] ''&amp;'' [] text))))\<close>

text \<open>\<^verbatim>\<open>if (!text || typeof text !== 'string') return ''\<close>, then the chain.\<close>

definition escapeForXml :: "jsval \<Rightarrow> string" where
  "escapeForXml text =
     (if \<not> truthy text \<or> \<not> typeof_string text then []
      else (case text of JStr s \<Rightarrow> escape_chain s | _ \<Rightarrow> []))"

definition unescape_chain :: "string \<Rightarrow> string" where
  \<open>unescape_chain text =
     replace_g False (map Lit ''&apos;'') [CHR 0x27] []
       (replace_g False (map Lit ''&quot;'') [CHR 0x22] []
         (replace_g False (map Lit ''&gt;'') ''>'' []
           (replace_g False (map Lit ''&lt;'') ''<'' []
             (replace_g False (map Lit ''&amp;'') ''&'' [] text))))\<close>

definition unescapeXml :: "jsval \<Rightarrow> string" where
  "unescapeXml text =
     (if \<not> truthy text \<or> \<not> typeof_string text then []
      else (case text of JStr s \<Rightarrow> unescape_chain s | _ \<Rightarrow> []))"

definition fixDoubleEscaping :: "jsval \<Rightarrow> jsval" where
  \<open>fixDoubleEscaping content =
     replaceAll
       (replaceAll
         (replaceAll
           (replaceAll
             (replaceAll content ''&amp;amp;'' ''&amp;'')
             ''&amp;lt;'' ''&lt;'')
           ''&amp;gt;'' ''&gt;'')
         ''&amp;quot;'' ''&quot;'')
       ''&amp;apos;'' ''&apos;''\<close>


text \<open>
  The third pass of \<^verbatim>\<open>replacePlaceholder\<close> builds its pattern from the placeholder
  itself, unescaped: \<^verbatim>\<open>placeholder.split('').join('[^a-zA-Z]*')\<close> between
  \<^verbatim>\<open><w:t[^>]*>\s*\<close> and \<^verbatim>\<open>\s*</w:t>\<close>, with the flags \<^verbatim>\<open>gi\<close>. A character of the
  placeholder that is not one of the pattern syntax's own stands for itself. For a
  placeholder with a syntax character the pattern is whatever the \<^verbatim>\<open>RegExp\<close> constructor
  reads (or a \<^verbatim>\<open>SyntaxError\<close>); that part of the language is not modelled, and
  \<open>split_run_regex\<close> is \<open>None\<close> there.
\<close>

definition regex_syntax_char :: "char \<Rightarrow> bool" where
  \<open>regex_syntax_char c = (c \<in> set ''^$.*+?()[]{}|'' \<or> c = CHR 0x5C)\<close>

fun join_items :: "item list \<Rightarrow> item \<Rightarrow> item list" where
  "join_items [] sep = []"
| "join_items [x] sep = [x]"
| "join_items (x # y # r) sep = x # sep # join_items (y # r) sep"

definition split_run_items :: "string \<Rightarrow> item list" where
  \<open>split_run_items placeholder =
     map Lit ''<w:t'' @ [Star NotGt, Lit CHR ''>'', Star Space] @
     join_items (map Lit placeholder) (Star NotAlpha) @
     [Star Space] @ map Lit ''</w:t>''\<close>

definition split_run_regex :: "string \<Rightarrow> item list option" where
  "split_run_regex placeholder =
     (if list_ex regex_syntax_char placeholder then None
      else Some (split_run_items placeholder))"

text \<open>
  \<^verbatim>\<open>replacePlaceholder(content, placeholder, value)\<close>, all three arguments strings: the
  bracketed form, the bare text run and the split run, one after the other. The result is
  \<open>None\<close> where the third pattern is outside the modelled part.
\<close>

definition replacePlaceholder :: "string \<Rightarrow> string \<Rightarrow> string \<Rightarrow> string option" where
  \<open>replacePlaceholder content placeholder value =
     (let safeValue = escapeForXml (JStr value);
          result1 = replaceAll_str content (''{{'' @ placeholder @ ''}}'') safeValue;
          result2 = replaceAll_str result1 (''<w:t>'' @ placeholder @ ''</w:t>'')
                      (''<w:t>'' @ safeValue @ ''</w:t>'')
      in map_option
           (\<lambda>regex. replace_g True regex (''<w:t>'' @ safeValue @ ''</w:t>'') [] result2)
           (split_run_regex placeholder))\<close>

text \<open>
  \<^verbatim>\<open>generateImageId\<close>: \<open>draw i\<close> is the value of the \<open>i\<close>-th
  \<^verbatim>\<open>Math.floor(Math.random() * length)\<close>; \<^verbatim>\<open>charAt\<close> past the end is the empty string.
\<close>

definition charAt :: "string \<Rightarrow> nat \<Rightarrow> string" where
  "charAt s i = (if i < length s then [s ! i] else [])"

definition generateImageId :: "(nat \<Rightarrow> nat) \<Rightarrow> string" where
  \<open>generateImageId draw =
     ''rId'' @ concat (map (\<lambda>i. charAt ''ABCDEFGHIJKLMNOPQRSTUVWXYZ'' (draw i)) [0..<2])
            @ concat (map (\<lambda>i. charAt ''0123456789'' (draw (2 + i))) [0..<4])\<close>

section \<open>Further string operations of the language\<close>

text \<open>
  \<^verbatim>\<open>s.match(regex)\<close> with the \<^verbatim>\<open>g\<close> flag: the matched substrings, from the left
  (the empty list where JavaScript gives \<^verbatim>\<open>null\<close>).
\<close>

function match_all :: "bool \<Rightarrow> item list \<Rightarrow> string \<Rightarrow> string list" where
  "match_all ci items s =
     (case rmatch ci items s of
        None \<Rightarrow> (case s of [] \<Rightarrow> [] | x # xs \<Rightarrow> match_all ci items xs)
      | Some rest \<Rightarrow>
          (if length s - length rest = 0
           then [] # (case s of [] \<Rightarrow> [] | x # xs \<Rightarrow> match_all ci items xs)
           else take (length s - length rest) s #
                  match_all ci items (drop (length s - length rest) s)))"
  by pat_completeness auto
termination
  by (relation "measure (\<lambda>(ci, items, s). length s)") auto

declare match_all.simps [simp del]

text \<open>\<^verbatim>\<open>s.replace(pat, repl)\<close> with a string pattern: the first occurrence only.\<close>

fun replace_first :: "string \<Rightarrow> string \<Rightarrow> string \<Rightarrow> string \<Rightarrow> string" where
  "replace_first pat repl pre [] = (if pat = [] then expand repl pre [] [] else [])"
| "replace_first pat repl pre (x # xs) =
     (if prefix pat (x # xs)
      then expand repl pre pat (drop (length pat) (x # xs)) @ drop (length pat) (x # xs)
      else x # replace_first pat repl (pre @ [x]) xs)"

text \<open>\<^verbatim>\<open>toLowerCase\<close> on the code units below 256.\<close>

definition lower_char :: "char \<Rightarrow> char" where
  "lower_char c = (let n = (of_char c :: nat) in
     if (65 \<le> n \<and> n \<le> 90) \<or> (192 \<le> n \<and> n \<le> 222 \<and> n \<noteq> 215)
     then char_of (n + 32) else c)"

definition toLowerCase :: "string \<Rightarrow> string" where
  "toLowerCase s = map lower_char s"

text \<open>
  A number in a template literal. The numbers of the model are integers; \<open>show_num\<close> and
  \<open>show_str\<close> print a property that may be absent (\<^verbatim>\<open>undefined\<close>).
\<close>

definition digit_char :: "nat \<Rightarrow> char" where
  "digit_char d = char_of (48 + d)"

fun show_nat :: "nat \<Rightarrow> string" where
  "show_nat n = (if n < 10 then [digit_char n] else show_nat (n div 10) @ [digit_char (n mod 10)])"

declare show_nat.simps [simp del]

definition show_int :: "int \<Rightarrow> string" where
  "show_int i = (if i < 0 then CHR ''-'' # show_nat (nat (- i)) else show_nat (nat i))"

definition show_num :: "int option \<Rightarrow> string" where
  "show_num v = (case v of None \<Rightarrow> ''undefined'' | Some n \<Rightarrow> show_int n)"

definition show_str :: "string option \<Rightarrow> string" where
  "show_str v = (case v of None \<Rightarrow> ''undefined'' | Some s \<Rightarrow> s)"

text \<open>\<^verbatim>\<open>x || d\<close> for an optional number: absent and zero are both falsy.\<close>

definition or_default :: "int option \<Rightarrow> int \<Rightarrow> int" where
  "or_default v d = (case v of None \<Rightarrow> d | Some n \<Rightarrow> if n = 0 then d else n)"

section \<open>XML utilities (utils/xml.ts)\<close>

definition addRelationship :: "string \<Rightarrow> string \<Rightarrow> string" where
  \<open>addRelationship relsContent relationshipXml =
     replaceAll_str relsContent ''</Relationships>''
       (relationshipXml @ ''\<newline>'' @ ''</Relationships>'')\<close>

text \<open>
  \<^verbatim>\<open>extractRelationshipIds\<close>: the matches of \<^verbatim>\<open>/Id="([^"]+)"/g\<close>, each without its
  first \<^verbatim>\<open>Id="\<close> and then without its first quote.
\<close>

definition extractRelationshipIds :: "string \<Rightarrow> string list" where
  \<open>extractRelationshipIds relsContent =
     map (\<lambda>m. replace_first [CHR 0x22] [] [] (replace_first ''Id="'' [] [] m))
       (match_all False (map Lit ''Id="'' @ [One NotQuote, Star NotQuote, Lit (CHR 0x22)])
          relsContent)\<close>

definition addContentType :: "string \<Rightarrow> string \<Rightarrow> string \<Rightarrow> string" where
  \<open>addContentType contentTypesXml extension contentType =
     (let existing = ''Extension="'' @ extension @ ''"'' in
      if js_includes contentTypesXml existing then contentTypesXml
      else
        (let newType = ''<Default Extension="'' @ extension @ ''" ContentType="'' @ contentType @ ''" />'';
             closingTag = ''</Types>''
         in replaceAll_str contentTypesXml closingTag (newType @ ''\<newline>'' @ closingTag)))\<close>

text \<open>
  The table of content types and its lookup, \<^verbatim>\<open>IMAGE_CONTENT_TYPES[ext] || 'image/png'\<close>
  (for the keys of the table itself and for strings that name no property at all).
\<close>

definition IMAGE_CONTENT_TYPES :: "(string \<times> string) list" where
  \<open>IMAGE_CONTENT_TYPES =
     [(''png'', ''image/png''), (''jpg'', ''image/jpeg''), (''jpeg'', ''image/jpeg''),
      (''gif'', ''image/gif''), (''bmp'', ''image/bmp''), (''webp'', ''image/webp'')]\<close>

definition getImageContentType :: "string \<Rightarrow> string" where
  \<open>getImageContentType extension =
     (let ext = replace_first ''.'' [] [] (toLowerCase extension) in
      case map_of IMAGE_CONTENT_TYPES ext of
        None \<Rightarrow> ''image/png''
      | Some t \<Rightarrow> if t = [] then ''image/png'' else t)\<close>

section \<open>Markup templates (utils/constants.ts)\<close>

definition generateImageRelationship :: "string \<Rightarrow> string \<Rightarrow> string" where
  \<open>generateImageRelationship imageId imageName =
     ''<Relationship Id="'' @ imageId @ ''" Type="http://schemas.openxmlformats.org/officeDocument/2006/relationships/image" Target="media/'' @ imageName @ ''" />''\<close>

definition generateInlineImage :: "string \<Rightarrow> int \<Rightarrow> int \<Rightarrow> string \<Rightarrow> string" where
  \<open>generateInlineImage imageId w h nm =
     ''<w:drawing>\<newline>'' @
     ''    <wp:inline distT="0" distB="0" distL="0" distR="0">\<newline>'' @
     ''      <wp:extent cx="'' @ show_int w @ ''" cy="'' @ show_int h @ ''" />\<newline>'' @
     ''      <wp:effectExtent l="0" t="0" r="0" b="0" />\<newline>'' @
     ''      <wp:docPr id="1" name="'' @ nm @ ''" />\<newline>'' @
     ''      <wp:cNvGraphicFramePr>\<newline>'' @
     ''        <a:graphicFrameLocks xmlns:a="http://schemas.openxmlformats.org/drawingml/2006/main" noChangeAspect="1" />\<newline>'' @
     ''      </wp:cNvGraphicFramePr>\<newline>'' @
     ''      <a:graphic xmlns:a="http://schemas.openxmlformats.org/drawingml/2006/main">\<newline>'' @
     ''        <a:graphicData uri="http://schemas.openxmlformats.org/drawingml/2006/picture">\<newline>'' @
     ''          <pic:pic xmlns:pic="http://schemas.openxmlformats.org/drawingml/2006/picture">\<newline>'' @
     ''            <pic:nvPicPr>\<newline>'' @
     ''              <pic:cNvPr id="1" name="'' @ nm @ ''" />\<newline>'' @
     ''              <pic:cNvPicPr />\<newline>'' @
     ''            </pic:nvPicPr>\<newline>'' @
     ''            <pic:blipFill>\<newline>'' @
     ''              <a:blip r:embed="'' @ imageId @ ''" cstate="print" />\<newline>'' @
     ''              <a:stretch>\<newline>'' @
     ''                <a:fillRect />\<newline>'' @
     ''              </a:stretch>\<newline>'' @
     ''            </pic:blipFill>\<newline>'' @
     ''            <pic:spPr>\<newline>'' @
     ''              <a:xfrm>\<newline>'' @
     ''                <a:off x="0" y="0" />\<newline>'' @
     ''                <a:ext cx="'' @ show_int w @ ''" cy="'' @ show_int h @ ''" />\<newline>'' @
     ''              </a:xfrm>\<newline>'' @
     ''              <a:prstGeom prst="rect">\<newline>'' @
     ''                <a:avLst />\<newline>'' @
     ''              </a:prstGeom>\<newline>'' @
     ''            </pic:spPr>\<newline>'' @
     ''          </pic:pic>\<newline>'' @
     ''        </a:graphicData>\<newline>'' @
     ''      </a:graphic>\<newline>'' @
     ''    </wp:inline>\<newline>'' @
     ''  </w:drawing>''\<close>

text \<open>
  A style object. \<^verbatim>\<open>DEFAULT_TABLE_STYLE\<close> has the first five properties; the interface
  \<^verbatim>\<open>TableStyle\<close> of \<^verbatim>\<open>types/index.ts\<close> allows all ten, each optional, and
  \<^verbatim>\<open>processTables\<close> spreads such an object over the defaults before it calls
  \<^verbatim>\<open>generateTable\<close>.
\<close>

record TableStyle =
  headerBgColor :: "string option"
  headerTextColor :: "string option"
  borderColor :: "string option"
  fontSize :: "int option"
  fontFamily :: "string option"
  headerHeight :: "int option"
  rowHeight :: "int option"
  tableAlign :: "string option"
  cellPadding :: "int option"
  borderSize :: "int option"

definition DEFAULT_TABLE_STYLE :: TableStyle where
  \<open>DEFAULT_TABLE_STYLE =
     \<lparr>headerBgColor = Some ''C9DAF8'', headerTextColor = Some ''000000'',
      borderColor = Some ''auto'', fontSize = Some 24, fontFamily = Some ''Times New Roman'',
      headerHeight = None, rowHeight = None, tableAlign = None, cellPadding = None,
      borderSize = None\<rparr>\<close>

text \<open>\<^verbatim>\<open>{ ...base, ...over }\<close>: a property of \<open>over\<close> that is present wins.\<close>

definition over :: "'a option \<Rightarrow> 'a option \<Rightarrow> 'a option" where
  "over b v = (case v of None \<Rightarrow> b | Some x \<Rightarrow> Some x)"

definition spread_style :: "TableStyle \<Rightarrow> TableStyle \<Rightarrow> TableStyle" where
  "spread_style base ov =
     \<lparr>headerBgColor = over (headerBgColor base) (headerBgColor ov),
      headerTextColor = over (headerTextColor base) (headerTextColor ov),
      borderColor = over (borderColor base) (borderColor ov),
      fontSize = over (fontSize base) (fontSize ov),
      fontFamily = over (fontFamily base) (fontFamily ov),
      headerHeight = over (headerHeight base) (headerHeight ov),
      rowHeight = over (rowHeight base) (rowHeight ov),
      tableAlign = over (tableAlign base) (tableAlign ov),
      cellPadding = over (cellPadding base) (cellPadding ov),
      borderSize = over (borderSize base) (borderSize ov)\<rparr>"

record TableHeader =
  name :: string
  width :: "int option"

text \<open>\<^verbatim>\<open>escapeXml\<close> of \<^verbatim>\<open>constants.ts\<close>: \<^verbatim>\<open>if (!text) return ''\<close>, then the same chain.\<close>

definition escapeXml :: "string \<Rightarrow> string" where
  "escapeXml text = (if text = [] then [] else escape_chain text)"

definition headerCell :: "TableStyle \<Rightarrow> TableHeader \<Rightarrow> string" where
  \<open>headerCell style header =
     ''\<newline>'' @
     ''    <w:tc>\<newline>'' @
     ''      <w:tcPr>\<newline>'' @
     ''        <w:tcW w:w="'' @ show_int (or_default (width header) 2000) @ ''" w:type="dxa" />\<newline>'' @
     ''        <w:shd w:val="clear" w:color="auto" w:fill="'' @ show_str (headerBgColor style) @ ''" />\<newline>'' @
     ''        <w:vAlign w:val="center" />\<newline>'' @
     ''      </w:tcPr>\<newline>'' @
     ''      <w:p>\<newline>'' @
     ''        <w:pPr>\<newline>'' @
     ''          <w:jc w:val="center" />\<newline>'' @
     ''          <w:rPr>\<newline>'' @
     ''            <w:rFonts w:ascii="'' @ show_str (fontFamily style) @ ''" w:hAnsi="'' @ show_str (fontFamily style) @ ''" />\<newline>'' @
     ''            <w:b />\<newline>'' @
     ''            <w:sz w:val="'' @ show_num (fontSize style) @ ''" />\<newline>'' @
     ''            <w:szCs w:val="'' @ show_num (fontSize style) @ ''" />\<newline>'' @
     ''            <w:color w:val="'' @ show_str (headerTextColor style) @ ''" />\<newline>'' @
     ''          </w:rPr>\<newline>'' @
     ''        </w:pPr>\<newline>'' @
     ''        <w:r>\<newline>'' @
     ''          <w:rPr>\<newline>'' @
     ''            <w:rFonts w:ascii="'' @ show_str (fontFamily style) @ ''" w:hAnsi="'' @ show_str (fontFamily style) @ ''" />\<newline>'' @
     ''            <w:b />\<newline>'' @
     ''            <w:sz w:val="'' @ show_num (fontSize style) @ ''" />\<newline>'' @
     ''            <w:szCs w:val="'' @ show_num (fontSize style) @ ''" />\<newline>'' @
     ''            <w:color w:val="'' @ show_str (headerTextColor style) @ ''" />\<newline>'' @
     ''          </w:rPr>\<newline>'' @
     ''          <w:t>'' @ escapeXml (name header) @ ''</w:t>\<newline>'' @
     ''        </w:r>\<newline>'' @
     ''      </w:p>\<newline>'' @
     ''    </w:tc>\<newline>'' @
     ''  ''\<close>

definition generateTableHeaderRow :: "TableHeader list \<Rightarrow> TableStyle \<Rightarrow> string" where
  \<open>generateTableHeaderRow headers style =
     (let cells = concat (map (headerCell style) headers) in
     ''\<newline>'' @
     ''    <w:tr>\<newline>'' @
     ''      <w:trPr>\<newline>'' @
     ''        <w:trHeight w:val="400" />\<newline>'' @
     ''      </w:trPr>\<newline>'' @
     ''      '' @ cells @ ''\<newline>'' @
     ''    </w:tr>\<newline>'' @
     ''  '')\<close>

text \<open>\<^verbatim>\<open>widths[index] || 2000\<close>: past the end of the array the read is \<^verbatim>\<open>undefined\<close>.\<close>

definition width_at :: "int list \<Rightarrow> nat \<Rightarrow> int" where
  "width_at widths index =
     (if index < length widths then (if widths ! index = 0 then 2000 else widths ! index)
      else 2000)"

definition dataCell :: "int list \<Rightarrow> TableStyle \<Rightarrow> nat \<Rightarrow> string \<Rightarrow> string" where
  \<open>dataCell widths style index cell =
     ''\<newline>'' @
     ''    <w:tc>\<newline>'' @
     ''      <w:tcPr>\<newline>'' @
     ''        <w:tcW w:w="'' @ show_int (width_at widths index) @ ''" w:type="dxa" />\<newline>'' @
     ''        <w:vAlign w:val="center" />\<newline>'' @
     ''      </w:tcPr>\<newline>'' @
     ''      <w:p>\<newline>'' @
     ''        <w:pPr>\<newline>'' @
     ''          <w:rPr>\<newline>'' @
     ''            <w:rFonts w:ascii="'' @ show_str (fontFamily style) @ ''" w:hAnsi="'' @ show_str (fontFamily style) @ ''" />\<newline>'' @
     ''            <w:sz w:val="'' @ show_num (fontSize style) @ ''" />\<newline>'' @
     ''            <w:szCs w:val="'' @ show_num (fontSize style) @ ''" />\<newline>'' @
     ''          </w:rPr>\<newline>'' @
     ''        </w:pPr>\<newline>'' @
     ''        <w:r>\<newline>'' @
     ''          <w:rPr>\<newline>'' @
     ''            <w:rFonts w:ascii="'' @ show_str (fontFamily style) @ ''" w:hAnsi="'' @ show_str (fontFamily style) @ ''" />\<newline>'' @
     ''            <w:sz w:val="'' @ show_num (fontSize style) @ ''" />\<newline>'' @
     ''            <w:szCs w:val="'' @ show_num (fontSize style) @ ''" />\<newline>'' @
     ''          </w:rPr>\<newline>'' @
     ''          <w:t>'' @ escapeXml cell @ ''</w:t>\<newline>'' @
     ''        </w:r>\<newline>'' @
     ''      </w:p>\<newline>'' @
     ''    </w:tc>\<newline>'' @
     ''  ''\<close>

definition generateTableDataRow :: "string list \<Rightarrow> int list \<Rightarrow> TableStyle \<Rightarrow> string" where
  \<open>generateTableDataRow cells widths style =
     (let cellsXml = concat (map (\<lambda>(index, cell). dataCell widths style index cell)
                               (zip [0..<length cells] cells)) in
     ''\<newline>'' @
     ''    <w:tr>\<newline>'' @
     ''      <w:trPr>\<newline>'' @
     ''        <w:trHeight w:val="350" />\<newline>'' @
     ''      </w:trPr>\<newline>'' @
     ''      '' @ cellsXml @ ''\<newline>'' @
     ''    </w:tr>\<newline>'' @
     ''  '')\<close>

text \<open>The grid column of one header: \<^verbatim>\<open>h => `<w:gridCol w:w="${h.width || 2000}" />`\<close>.\<close>

definition gridCol :: "TableHeader \<Rightarrow> string" where
  \<open>gridCol h = ''<w:gridCol w:w="'' @ show_int (or_default (width h) 2000) @ ''" />''\<close>

text \<open>
  \<^verbatim>\<open>generateTable(headers, rows, style = DEFAULT_TABLE_STYLE)\<close>; \<open>None\<close> is the call
  without a third argument.
\<close>

definition generateTable :: "TableHeader list \<Rightarrow> string list list \<Rightarrow> TableStyle option \<Rightarrow> string" where
  \<open>generateTable headers rows style_arg =
     (let style = (case style_arg of None \<Rightarrow> DEFAULT_TABLE_STYLE | Some st \<Rightarrow> st);
          widths = map (\<lambda>h. or_default (width h) 2000) headers;
          gridCols = concat (map gridCol headers);
          headerRow = generateTableHeaderRow headers style;
          dataRows = concat (map (\<lambda>row. generateTableDataRow row widths style) rows)
      in
     ''\<newline>'' @
     ''    <w:tbl>\<newline>'' @
     ''      <w:tblPr>\<newline>'' @
     ''        <w:tblStyle w:val="TableGrid" />\<newline>'' @
     ''        <w:tblW w:w="5000" w:type="pct" />\<newline>'' @
     ''        <w:jc w:val="center" />\<newline>'' @
     ''        <w:tblBorders>\<newline>'' @
     ''          <w:top w:val="single" w:sz="4" w:space="0" w:color="'' @ show_str (borderColor style) @ ''" />\<newline>'' @
     ''          <w:left w:val="single" w:sz="4" w:space="0" w:color="'' @ show_str (borderColor style) @ ''" />\<newline>'' @
     ''          <w:bottom w:val="single" w:sz="4" w:space="0" w:color="'' @ show_str (borderColor style) @ ''" />\<newline>'' @
     ''          <w:right w:val="single" w:sz="4" w:space="0" w:color="'' @ show_str (borderColor style) @ ''" />\<newline>'' @
     ''          <w:insideH w:val="single" w:sz="4" w:space="0" w:color="'' @ show_str (borderColor style) @ ''" />\<newline>'' @
     ''          <w:insideV w:val="single" w:sz="4" w:space="0" w:color="'' @ show_str (borderColor style) @ ''" />\<newline>'' @
     ''        </w:tblBorders>\<newline>'' @
     ''        <w:tblLayout w:type="fixed" />\<newline>'' @
     ''      </w:tblPr>\<newline>'' @
     ''      <w:tblGrid>\<newline>'' @
     ''        '' @ gridCols @ ''\<newline>'' @
     ''      </w:tblGrid>\<newline>'' @
     ''      '' @ headerRow @ ''\<newline>'' @
     ''      '' @ dataRows @ ''\<newline>'' @
     ''    </w:tbl>\<newline>'' @
     ''  '')\<close>

section \<open>Image utilities (utils/image.ts)\<close>

text \<open>
  An image configuration. A \<^verbatim>\<open>Buffer\<close> is modelled by the string of its bytes. What the
  file system, the network, \<^verbatim>\<open>path.extname\<close>, the \<^verbatim>\<open>URL\<close> constructor and
  \<^verbatim>\<open>Math.random\<close> answer is given by an environment: \<open>None\<close> is a rejected read or
  download or a \<^verbatim>\<open>URL\<close> that does not parse, and \<open>random_draw i\<close> gives the draws
  of the call of \<^verbatim>\<open>generateImageId\<close> for the image of index \<open>i\<close>.
\<close>

record ImageConfig =
  placeholder :: string
  path :: "string option"
  buffer :: "string option"
  url :: "string option"
  img_width :: "int option"
  img_height :: "int option"
  img_id :: "string option"

record io_env =
  readFile :: "string \<Rightarrow> string option"
  download :: "string \<Rightarrow> string option"
  extname :: "string \<Rightarrow> string"
  url_pathname :: "string \<Rightarrow> string option"
  random_draw :: "nat \<Rightarrow> nat \<Rightarrow> nat"

datatype error =
    NoImageSource string
  | ReadFailed string
  | DownloadFailed string
  | InvalidUrl string

text \<open>An optional string in a condition: absent and empty are both falsy.\<close>

definition set_str :: "string option \<Rightarrow> bool" where
  "set_str v = (case v of None \<Rightarrow> False | Some s \<Rightarrow> s \<noteq> [])"

definition loadImageFromPath :: "io_env \<Rightarrow> string \<Rightarrow> error + string" where
  "loadImageFromPath env imagePath =
     (case readFile env imagePath of None \<Rightarrow> Inl (ReadFailed imagePath) | Some b \<Rightarrow> Inr b)"

definition downloadImage :: "io_env \<Rightarrow> string \<Rightarrow> error + string" where
  "downloadImage env u =
     (case download env u of None \<Rightarrow> Inl (DownloadFailed u) | Some b \<Rightarrow> Inr b)"

text \<open>
  \<^verbatim>\<open>getImageBuffer\<close>: a \<^verbatim>\<open>Buffer\<close> object is truthy whatever its length; the error of
  the last line carries the placeholder of its message.
\<close>

definition getImageBuffer :: "io_env \<Rightarrow> ImageConfig \<Rightarrow> error + string" where
  "getImageBuffer env config =
     (case buffer config of
        Some b \<Rightarrow> Inr b
      | None \<Rightarrow>
          if set_str (path config) then loadImageFromPath env (the (path config))
          else if set_str (url config) then downloadImage env (the (url config))
          else Inl (NoImageSource (placeholder config)))"

text \<open>\<^verbatim>\<open>x || 'png'\<close> for a string.\<close>

definition or_png :: "string \<Rightarrow> string" where
  \<open>or_png x = (if x = [] then ''png'' else x)\<close>

definition getImageExtension :: "io_env \<Rightarrow> ImageConfig \<Rightarrow> error + string" where
  \<open>getImageExtension env config =
     (if set_str (path config)
      then Inr (or_png (replace_first ''.'' [] [] (toLowerCase (extname env (the (path config))))))
      else if set_str (url config)
      then (case url_pathname env (the (url config)) of
              None \<Rightarrow> Inl (InvalidUrl (the (url config)))
            | Some urlPath \<Rightarrow>
                Inr (or_png (replace_first ''.'' [] [] (toLowerCase (extname env urlPath)))))
      else Inr ''png'')\<close>

definition generateImageFileName :: "nat \<Rightarrow> string \<Rightarrow> string" where
  \<open>generateImageFileName index extension = ''image'' @ show_nat (index + 1) @ ''.'' @ extension\<close>

record PreparedImage =
  p_id :: string
  p_buffer :: string
  fileName :: string
  extension :: string
  relationshipXml :: string
  inlineXml :: string
  p_placeholder :: string

text \<open>
  The loop of \<^verbatim>\<open>prepareImage\<close> that makes the id unique:
  \<^verbatim>\<open>while (existingIds.includes(id)) { id = `rId${100 + index + counter}`; counter++; }\<close>.
  It ends because the candidates of different counters are different strings, and only
  finitely many strings are taken.
\<close>

lemma digit_char_inj: "a < 10 \<Longrightarrow> b < 10 \<Longrightarrow> digit_char a = digit_char b \<Longrightarrow> a = b"
proof -
  assume a: "a < 10" and b: "b < 10" and e: "digit_char a = digit_char b"
  have "(48 + a) mod 256 = (48 + b) mod 256"
    using e by (simp only: digit_char_def char_of_quasi_inj)
  moreover have "(48 + a) mod 256 = 48 + a" using a by (intro mod_less) arith
  moreover have "(48 + b) mod 256 = 48 + b" using b by (intro mod_less) arith
  ultimately show "a = b" by arith
qed

lemma show_nat_nonempty: "show_nat n \<noteq> []"
  by (subst show_nat.simps) simp

lemma show_nat_inj: "show_nat a = show_nat b \<Longrightarrow> a = b"
proof (induction a arbitrary: b rule: show_nat.induct)
  case (1 a)
  show ?case
  proof (cases "a < 10")
    case True
    then have sa: "show_nat a = [digit_char a]" by (subst show_nat.simps) simp
    show ?thesis
    proof (cases "b < 10")
      case True
      then have "show_nat b = [digit_char b]" by (subst show_nat.simps) simp
      with sa "1.prems" have "digit_char a = digit_char b" by simp
      then show ?thesis by (rule digit_char_inj [OF \<open>a < 10\<close> True])
    next
      case False
      then have "show_nat b = show_nat (b div 10) @ [digit_char (b mod 10)]"
        by (subst show_nat.simps) simp
      with sa "1.prems" have "show_nat (b div 10) = []" by simp
      then show ?thesis by (simp add: show_nat_nonempty)
    qed
  next
    case False
    then have sa: "show_nat a = show_nat (a div 10) @ [digit_char (a mod 10)]"
      by (subst show_nat.simps) simp
    show ?thesis
    proof (cases "b < 10")
      case True
      then have "show_nat b = [digit_char b]" by (subst show_nat.simps) simp
      with sa "1.prems" have "show_nat (a div 10) = []" by simp
      then show ?thesis by (simp add: show_nat_nonempty)
    next
      case b: False
      then have "show_nat b = show_nat (b div 10) @ [digit_char (b mod 10)]"
        by (subst show_nat.simps) simp
      with sa "1.prems" have e1: "show_nat (a div 10) = show_nat (b div 10)"
        and e2: "digit_char (a mod 10) = digit_char (b mod 10)" by simp_all
      from "1.IH" [OF False e1] have "a div 10 = b div 10" .
      moreover have "a mod 10 = b mod 10" by (rule digit_char_inj [OF _ _ e2]) simp_all
      ultimately show ?thesis by (metis div_mult_mod_eq)
    qed
  qed
qed

function uniqueId :: "string list \<Rightarrow> nat \<Rightarrow> string \<Rightarrow> nat \<Rightarrow> string" where
  "uniqueId existingIds index ident counter =
     (if ident \<in> set existingIds
      then uniqueId existingIds index (''rId'' @ show_nat (100 + index + counter)) (counter + 1)
      else ident)"
  by pat_completeness auto
termination
proof (relation "measure (\<lambda>(existingIds, index, ident, counter).
         card {k. counter \<le> k \<and> ''rId'' @ show_nat (100 + index + k) \<in> set existingIds}
         + (if ident \<in> set existingIds then 1 else 0))")
  show "wf (measure (\<lambda>(existingIds, index, ident, counter).
         card {k. counter \<le> k \<and> ''rId'' @ show_nat (100 + index + k) \<in> set existingIds}
         + (if ident \<in> set existingIds then 1 else 0)))" by simp
next
  fix existingIds :: "string list" and index :: nat and ident :: string and counter :: nat
  assume mem: "ident \<in> set existingIds"
  let ?f = "\<lambda>k. ''rId'' @ show_nat (100 + index + k)"
  let ?K = "\<lambda>c. {k. c \<le> k \<and> ?f k \<in> set existingIds}"
  have inj: "inj ?f" by (auto simp: inj_def dest: show_nat_inj)
  have fin: "finite (?K counter)"
  proof -
    have "?K counter \<subseteq> ?f -` set existingIds" by auto
    moreover have "finite (?f -` set existingIds)" using inj by (simp add: finite_vimageI)
    ultimately show ?thesis by (rule finite_subset)
  qed
  have sub: "?K (counter + 1) \<subseteq> ?K counter" by auto
  have "card (?K (counter + 1)) + (if ?f counter \<in> set existingIds then 1 else 0) \<le> card (?K counter)"
  proof (cases "?f counter \<in> set existingIds")
    case True
    then have "counter \<in> ?K counter" and "counter \<notin> ?K (counter + 1)" by auto
    then have "?K (counter + 1) \<subset> ?K counter" using sub by blast
    then have "card (?K (counter + 1)) < card (?K counter)" using fin by (rule psubset_card_mono[rotated])
    with True show ?thesis by simp
  next
    case False
    then show ?thesis using card_mono [OF fin sub] by simp
  qed
  then show "((existingIds, index, ''rId'' @ show_nat (100 + index + counter), counter + 1),
              (existingIds, index, ident, counter)) \<in> measure (\<lambda>(existingIds, index, ident, counter).
         card {k. counter \<le> k \<and> ''rId'' @ show_nat (100 + index + k) \<in> set existingIds}
         + (if ident \<in> set existingIds then 1 else 0))"
    using mem by simp
qed


declare uniqueId.simps [simp del]

text \<open>\<^verbatim>\<open>config.id || generateImageId()\<close>.\<close>

definition initial_id :: "io_env \<Rightarrow> ImageConfig \<Rightarrow> nat \<Rightarrow> string" where
  "initial_id env config index =
     (if set_str (img_id config) then the (img_id config)
      else generateImageId (random_draw env index))"

definition prepareImage :: "io_env \<Rightarrow> ImageConfig \<Rightarrow> nat \<Rightarrow> string list \<Rightarrow> error + PreparedImage" where
  \<open>prepareImage env config index existingIds =
     (case getImageBuffer env config of
        Inl e \<Rightarrow> Inl e
      | Inr buf \<Rightarrow>
          (case getImageExtension env config of
             Inl e \<Rightarrow> Inl e
           | Inr ext \<Rightarrow>
               (let fileName = generateImageFileName index ext;
                    ident = uniqueId existingIds index (initial_id env config index) 1;
                    relationshipXml = generateImageRelationship ident fileName;
                    inlineXml = generateInlineImage ident
                      (or_default (img_width config) 914400)
                      (or_default (img_height config) (or_default (img_width config) 914400))
                      (''Image '' @ show_nat (index + 1))
                in Inr \<lparr>p_id = ident, p_buffer = buf, fileName = fileName, extension = ext,
                        relationshipXml = relationshipXml, inlineXml = inlineXml,
                        p_placeholder = placeholder config\<rparr>)))\<close>

section \<open>The generator (DocxGenerator)\<close>

text \<open>
  The archive is a map from entry names to their text; \<open>None\<close> is the generator before a
  template is loaded (\<^verbatim>\<open>this.zip\<close> is \<^verbatim>\<open>null\<close>).
\<close>

type_synonym archive = "string \<Rightarrow> string option"

text \<open>
  The loop of \<^verbatim>\<open>processImages\<close>: image \<open>i\<close> is prepared against the ids of the
  relationship part and the ids of the images prepared before it; the first failure ends
  the pass.
\<close>

fun prepare_from :: "io_env \<Rightarrow> string list \<Rightarrow> ImageConfig list \<Rightarrow> nat \<Rightarrow> PreparedImage list
    \<Rightarrow> error + PreparedImage list" where
  "prepare_from env existingIds [] i preparedImages = Inr preparedImages"
| "prepare_from env existingIds (config # rest) i preparedImages =
     (case prepareImage env config i (existingIds @ map p_id preparedImages) of
        Inl e \<Rightarrow> Inl e
      | Inr prepared \<Rightarrow> prepare_from env existingIds rest (i + 1) (preparedImages @ [prepared]))"

definition processImages :: "io_env \<Rightarrow> archive option \<Rightarrow> ImageConfig list \<Rightarrow> error + PreparedImage list" where
  \<open>processImages env archive_opt images =
     (case archive_opt of
        None \<Rightarrow> Inr []
      | Some z \<Rightarrow>
          if images = [] then Inr []
          else
            (let relsContent = (case z ''word/_rels/document.xml.rels'' of
                                  None \<Rightarrow> [] | Some c \<Rightarrow> c);
                 existingIds = extractRelationshipIds relsContent
             in prepare_from env existingIds images 0 []))\<close>

text \<open>
  \<^verbatim>\<open>updateRelationships\<close>: a \<^verbatim>\<open>Set\<close> keeps the first of equal elements, in the order
  of insertion.
\<close>

definition set_order :: "'a list \<Rightarrow> 'a list" where
  "set_order xs = rev (remdups (rev xs))"

definition updateRelationships :: "archive option \<Rightarrow> PreparedImage list \<Rightarrow> archive option" where
  \<open>updateRelationships archive_opt images =
     (case archive_opt of
        None \<Rightarrow> None
      | Some z \<Rightarrow>
          if images = [] then Some z
          else
            (let z1 = (case z ''word/_rels/document.xml.rels'' of
                         None \<Rightarrow> z
                       | Some relsContent \<Rightarrow>
                           z(''word/_rels/document.xml.rels'' \<mapsto>
                               fold (\<lambda>image c. addRelationship c (relationshipXml image))
                                 images relsContent));
                 z2 = (case z1 ''[Content_Types].xml'' of
                         None \<Rightarrow> z1
                       | Some contentTypesXml \<Rightarrow>
                           z1(''[Content_Types].xml'' \<mapsto>
                                fold (\<lambda>ext c. addContentType c ext (getImageContentType ext))
                                  (set_order (map extension images)) contentTypesXml))
             in Some z2))\<close>

section \<open>Auxiliary notions for the proofs\<close>

text \<open>
  The strings a pattern matches as a whole, and the number of characters a pattern takes at
  least.
\<close>

fun lang :: "bool \<Rightarrow> item list \<Rightarrow> string \<Rightarrow> bool" where
  "lang ci [] m = (m = [])"
| "lang ci (Lit c # its) m = (case m of [] \<Rightarrow> False | x # xs \<Rightarrow> chr_eq ci c x \<and> lang ci its xs)"
| "lang ci (One k # its) m = (case m of [] \<Rightarrow> False | x # xs \<Rightarrow> cls_has k x \<and> lang ci its xs)"
| "lang ci (Star k # its) m =
     (lang ci its m \<or> (case m of [] \<Rightarrow> False | x # xs \<Rightarrow> cls_has k x \<and> lang ci (Star k # its) xs))"

fun lits :: "item list \<Rightarrow> nat" where
  "lits [] = 0"
| "lits (Lit c # its) = Suc (lits its)"
| "lits (One k # its) = Suc (lits its)"
| "lits (Star k # its) = lits its"

text \<open>
  The encoded form of one character of a string without an ampersand, after \<open>k\<close> of the
  five replacements of \<^verbatim>\<open>unescapeXml\<close>.
\<close>

definition enc :: "nat \<Rightarrow> char \<Rightarrow> string" where
  \<open>enc k x =
     (if x = CHR ''<'' \<and> k < 2 then ''&lt;''
      else if x = CHR ''>'' \<and> k < 3 then ''&gt;''
      else if x = CHR 0x22 \<and> k < 4 then ''&quot;''
      else if x = CHR 0x27 \<and> k < 5 then ''&apos;''
      else [x])\<close>

text \<open>A style none of whose interpolated strings contains the character that opens a tag.\<close>

definition lt_free_style :: "TableStyle \<Rightarrow> bool" where
  "lt_free_style st \<longleftrightarrow>
     CHR ''<'' \<notin> set (show_str (fontFamily st)) \<and>
     CHR ''<'' \<notin> set (show_str (headerBgColor st)) \<and>
     CHR ''<'' \<notin> set (show_str (headerTextColor st)) \<and>
     CHR ''<'' \<notin> set (show_str (borderColor st))"

section \<open>Facts about matching and replacing\<close>

lemma rmatch_suffix: "rmatch ci its s = Some r \<Longrightarrow> suffix r s"
  by (induction ci its s rule: rmatch.induct)
     (auto split: if_splits option.splits intro: suffix_ConsI)

lemma rmatch_length: "rmatch ci its s = Some r \<Longrightarrow> length r \<le> length s"
  by (drule rmatch_suffix) (rule suffix_length_le)

lemma rmatch_lit:
  "rmatch False (map Lit p) s = (if prefix p s then Some (drop (length p) s) else None)"
proof (induction p arbitrary: s)
  case Nil
  show ?case by simp
next
  case (Cons c p)
  show ?case by (cases s) (simp_all add: Cons.IH chr_eq_def)
qed

lemma js_includes_iff: "js_includes s p \<longleftrightarrow> (\<exists>a b. s = a @ p @ b)"
proof (induction s)
  case Nil
  show ?case by auto
next
  case (Cons x xs)
  show ?case
  proof
    assume "js_includes (x # xs) p"
    then consider "prefix p (x # xs)" | "js_includes xs p" by auto
    then show "\<exists>a b. x # xs = a @ p @ b"
    proof cases
      case 1
      then obtain b where "x # xs = p @ b" by (auto simp: prefix_def)
      then have "x # xs = [] @ p @ b" by simp
      then show ?thesis by blast
    next
      case 2
      then obtain a b where "xs = a @ p @ b" using Cons.IH by blast
      then have "x # xs = (x # a) @ p @ b" by simp
      then show ?thesis by blast
    qed
  next
    assume "\<exists>a b. x # xs = a @ p @ b"
    then obtain a b where ab: "x # xs = a @ p @ b" by blast
    show "js_includes (x # xs) p"
    proof (cases a)
      case Nil
      with ab have "prefix p (x # xs)" by (simp add: prefix_def)
      then show ?thesis by simp
    next
      case (Cons y ys)
      with ab have "xs = ys @ p @ b" by simp
      then have "js_includes xs p" using Cons.IH by blast
      then show ?thesis by simp
    qed
  qed
qed

text \<open>A literal pattern that does not occur leaves the subject as it is.\<close>

lemma replace_g_lit_absent:
  "\<not> js_includes s p \<Longrightarrow> p \<noteq> [] \<Longrightarrow> replace_g False (map Lit p) repl pre s = s"
proof (induction s arbitrary: pre)
  case Nil
  then show ?case by (subst replace_g.simps) (simp add: rmatch_lit)
next
  case (Cons x xs)
  then show ?case by (subst replace_g.simps) (simp add: rmatch_lit)
qed

lemma replaceAll_str_absent:
  "\<not> js_includes s p \<Longrightarrow> p \<noteq> [] \<Longrightarrow> replaceAll_str s p repl = s"
  by (simp add: replaceAll_str_def replace_g_lit_absent)

lemma expand_plain: "CHR ''$'' \<notin> set repl \<Longrightarrow> expand repl pre m post = repl"
  by (induction repl pre m post rule: expand.induct) auto

lemma replace_g_single:
  "CHR ''$'' \<notin> set repl \<Longrightarrow>
   replace_g False [Lit c] repl pre s = concat (map (\<lambda>x. if x = c then repl else [x]) s)"
proof (induction s arbitrary: pre)
  case Nil
  show ?case by (subst replace_g.simps) simp
next
  case (Cons x xs)
  show ?case
    by (subst replace_g.simps) (simp add: chr_eq_def expand_plain Cons)
qed


lemma js_includes_append: "js_includes (g @ u @ R) u"
  by (auto simp: js_includes_iff)

lemma js_includes_refl [simp]: "js_includes s s"
proof -
  have "s = [] @ s @ []" by simp
  then show ?thesis unfolding js_includes_iff by blast
qed

lemma js_includes_trans: "js_includes s u \<Longrightarrow> js_includes u w \<Longrightarrow> js_includes s w"
proof -
  assume "js_includes s u" "js_includes u w"
  then obtain a b c d where "s = a @ u @ b" "u = c @ w @ d" by (auto simp: js_includes_iff)
  then have "s = (a @ c) @ w @ (d @ b)" by simp
  then show ?thesis unfolding js_includes_iff by blast
qed


lemma replace_g_lit_present:
  assumes "CHR ''$'' \<notin> set repl"
  shows "js_includes s p \<Longrightarrow> js_includes (replace_g False (map Lit p) repl pre s) repl"
proof (induction s arbitrary: pre)
  case Nil
  then have "p = []" by simp
  then show ?case using assms by (subst replace_g.simps) (simp add: expand_plain)
next
  case (Cons x xs)
  show ?case
  proof (cases "prefix p (x # xs)")
    case True
    then have "\<exists>R. replace_g False (map Lit p) repl pre (x # xs) = repl @ R"
      using assms by (subst replace_g.simps) (simp add: rmatch_lit expand_plain)
    then obtain R where "replace_g False (map Lit p) repl pre (x # xs) = [] @ repl @ R" by auto
    then show ?thesis by (simp only: js_includes_append)
  next
    case False
    with Cons.prems have inc: "js_includes xs p" by simp
    have "replace_g False (map Lit p) repl pre (x # xs) =
            x # replace_g False (map Lit p) repl (pre @ [x]) xs"
      using False by (subst replace_g.simps) (simp add: rmatch_lit)
    with Cons.IH [OF inc] show ?thesis by simp
  qed
qed







lemma set_subst_char: "set (concat (map (\<lambda>x. if x = c then r else [x]) s)) \<subseteq> set s \<union> set r"
  by auto

lemma subst_char_nonempty: "s \<noteq> [] \<Longrightarrow> r \<noteq> [] \<Longrightarrow> concat (map (\<lambda>x. if x = c then r else [x]) s) \<noteq> []"
  by (cases s) auto

lemma escape_chain_subst:
  \<open>escape_chain s =
     concat (map (\<lambda>x. if x = CHR 0x27 then ''&apos;'' else [x])
       (concat (map (\<lambda>x. if x = CHR 0x22 then ''&quot;'' else [x])
         (concat (map (\<lambda>x. if x = CHR ''>'' then ''&gt;'' else [x])
           (concat (map (\<lambda>x. if x = CHR ''<'' then ''&lt;'' else [x])
             (concat (map (\<lambda>x. if x = CHR ''&'' then ''&amp;'' else [x]) s)))))))))\<close>
  by (simp add: escape_chain_def replace_g_single)

lemma subst_char_avoids:
  "c0 \<notin> set s \<Longrightarrow> c0 \<notin> set r \<Longrightarrow> c0 \<notin> set (concat (map (\<lambda>x. if x = c then r else [x]) s))"
  by auto

lemma escape_chain_avoids:
  assumes "c0 \<notin> set s" and \<open>c0 \<notin> set ''&amp;lt;gt;quot;apos;''\<close>
  shows "c0 \<notin> set (escape_chain s)"
proof -
  have a: \<open>c0 \<notin> set ''&amp;''\<close> \<open>c0 \<notin> set ''&lt;''\<close> \<open>c0 \<notin> set ''&gt;''\<close>
    \<open>c0 \<notin> set ''&quot;''\<close> \<open>c0 \<notin> set ''&apos;''\<close>
    using assms(2) by simp_all
  show ?thesis
    unfolding escape_chain_subst
    by (intro subst_char_avoids assms(1) a)
qed

lemma escape_chain_nonempty: "s \<noteq> [] \<Longrightarrow> escape_chain s \<noteq> []"
  unfolding escape_chain_subst by (intro subst_char_nonempty) simp_all

lemma escape_chain_Nil [simp]: "escape_chain [] = []"
  by (simp add: escape_chain_subst)

lemma escapeForXml_JStr: "escapeForXml (JStr v) = escape_chain v"
  by (simp add: escapeForXml_def)


lemma occurrences_skip:
  "c \<notin> set u \<Longrightarrow> occurrences (u @ r) (c # q) = occurrences r (c # q)"
  by (induction u) auto

lemma digit_char_not_lt: "d < 10 \<Longrightarrow> digit_char d \<noteq> CHR ''<''"
proof
  assume d: "d < 10" and e: "digit_char d = CHR ''<''"
  have "of_char (digit_char d) = (48 + d) mod 256" by (simp add: digit_char_def)
  also have "\<dots> = 48 + d" using d by (intro mod_less) arith
  finally have "of_char (digit_char d) = 48 + d" .
  moreover have "of_char (CHR ''<'') = (60::nat)" by simp
  ultimately show False using e d by simp
qed

lemma show_nat_no_lt: "CHR ''<'' \<notin> set (show_nat n)"
proof (induction n rule: show_nat.induct)
  case (1 n)
  show ?case
  proof (cases "n < 10")
    case True
    then show ?thesis by (subst show_nat.simps) (simp add: digit_char_not_lt [symmetric] digit_char_not_lt)
  next
    case False
    have "n mod 10 < 10" by simp
    then have "digit_char (n mod 10) \<noteq> CHR ''<''" by (rule digit_char_not_lt)
    with False 1 show ?thesis by (subst show_nat.simps) auto
  qed
qed

lemma show_int_no_lt: "CHR ''<'' \<notin> set (show_int i)"
  by (simp add: show_int_def show_nat_no_lt)

lemma show_num_no_lt: "CHR ''<'' \<notin> set (show_num v)"
  by (cases v) (simp_all add: show_num_def show_int_no_lt)

lemma subst_char_removes:
  "c \<notin> set r \<Longrightarrow> c \<notin> set (concat (map (\<lambda>x. if x = c then r else [x]) s))"
  by auto

lemma escape_chain_no_lt: "CHR ''<'' \<notin> set (escape_chain s)"
proof -
  let ?s1 = \<open>concat (map (\<lambda>x. if x = CHR ''&'' then ''&amp;'' else [x]) s)\<close>
  let ?s2 = \<open>concat (map (\<lambda>x. if x = CHR ''<'' then ''&lt;'' else [x]) ?s1)\<close>
  let ?s3 = \<open>concat (map (\<lambda>x. if x = CHR ''>'' then ''&gt;'' else [x]) ?s2)\<close>
  let ?s4 = \<open>concat (map (\<lambda>x. if x = CHR 0x22 then ''&quot;'' else [x]) ?s3)\<close>
  let ?s5 = \<open>concat (map (\<lambda>x. if x = CHR 0x27 then ''&apos;'' else [x]) ?s4)\<close>
  have 2: "CHR ''<'' \<notin> set ?s2" by (rule subst_char_removes) simp
  have 3: "CHR ''<'' \<notin> set ?s3" using 2 by (rule subst_char_avoids) simp
  have 4: "CHR ''<'' \<notin> set ?s4" using 3 by (rule subst_char_avoids) simp
  have 5: "CHR ''<'' \<notin> set ?s5" using 4 by (rule subst_char_avoids) simp
  show ?thesis unfolding escape_chain_subst by (rule 5)
qed

lemma escapeXml_no_lt: "CHR ''<'' \<notin> set (escapeXml s)"
  by (simp add: escapeXml_def escape_chain_no_lt)

lemma dataCell_one:
  assumes "CHR ''<'' \<notin> set (show_str (fontFamily style))"
  shows \<open>occurrences (dataCell widths style index cell @ r) ''<w:tc>'' = 1 + occurrences r ''<w:tc>''\<close>
  using assms
  by (simp add: dataCell_def occurrences_skip show_int_no_lt show_num_no_lt escapeXml_no_lt)

section \<open>Facts about the table markup\<close>

lemma cells_count:
  assumes "CHR ''<'' \<notin> set (show_str (fontFamily style))"
  shows \<open>occurrences (concat (map (\<lambda>(index, cell). dataCell widths style index cell) xs) @ r) ''<w:tc>''
         = length xs + occurrences r ''<w:tc>''\<close>
proof (induction xs)
  case Nil
  show ?case by simp
next
  case (Cons a xs)
  obtain i c where a: "a = (i, c)" by (cases a)
  show ?case using Cons dataCell_one [OF assms] by (simp add: a)
qed

lemma generateTableDataRow_count:
  assumes "CHR ''<'' \<notin> set (show_str (fontFamily style))"
  shows \<open>occurrences (generateTableDataRow cells widths style) ''<w:tc>'' = length cells\<close>
  by (simp add: generateTableDataRow_def Let_def cells_count [OF assms])

lemma headerCell_ignores:
  "headerCell (st\<lparr>headerHeight := hh, rowHeight := rh, tableAlign := ta, cellPadding := cp,
                 borderSize := bs\<rparr>) =
   headerCell st"
  by (rule ext) (simp add: headerCell_def)

lemma dataCell_ignores:
  "dataCell widths (st\<lparr>headerHeight := hh, rowHeight := rh, tableAlign := ta, cellPadding := cp,
                      borderSize := bs\<rparr>) =
   dataCell widths st"
  by (intro ext) (simp add: dataCell_def)

lemma js_includes_skip_char:
  "c \<notin> set u \<Longrightarrow> js_includes (u @ r) (c # q) = js_includes r (c # q)"
  by (induction u) auto

lemma dataCell_no_600:
  assumes "lt_free_style st"
  shows \<open>js_includes (dataCell widths st index cell @ r) ''<w:trHeight w:val="600" />'' =
         js_includes r ''<w:trHeight w:val="600" />''\<close>
  using assms
  by (simp add: lt_free_style_def dataCell_def js_includes_skip_char show_int_no_lt show_num_no_lt escapeXml_no_lt)

lemma headerCell_no_600:
  assumes "lt_free_style st"
  shows \<open>js_includes (headerCell st header @ r) ''<w:trHeight w:val="600" />'' =
         js_includes r ''<w:trHeight w:val="600" />''\<close>
  using assms
  by (simp add: lt_free_style_def headerCell_def js_includes_skip_char show_int_no_lt show_num_no_lt escapeXml_no_lt)

lemma dataCells_no_600:
  assumes "lt_free_style st"
  shows \<open>js_includes (concat (map (\<lambda>(index, cell). dataCell widths st index cell) xs) @ r)
            ''<w:trHeight w:val="600" />'' = js_includes r ''<w:trHeight w:val="600" />''\<close>
proof (induction xs)
  case Nil
  show ?case by simp
next
  case (Cons a xs)
  obtain i c where a: "a = (i, c)" by (cases a)
  show ?case using Cons dataCell_no_600 [OF assms] by (simp add: a)
qed

lemma headerCells_no_600:
  assumes "lt_free_style st"
  shows \<open>js_includes (concat (map (headerCell st) hs) @ r) ''<w:trHeight w:val="600" />'' =
         js_includes r ''<w:trHeight w:val="600" />''\<close>
  by (induction hs) (simp_all add: headerCell_no_600 [OF assms])

lemma dataRow_no_600:
  assumes "lt_free_style st"
  shows \<open>js_includes (generateTableDataRow cells widths st @ r) ''<w:trHeight w:val="600" />'' =
         js_includes r ''<w:trHeight w:val="600" />''\<close>
  by (simp add: generateTableDataRow_def Let_def dataCells_no_600 [OF assms])

lemma dataRows_no_600:
  assumes "lt_free_style st"
  shows \<open>js_includes (concat (map (\<lambda>row. generateTableDataRow row widths st) rows) @ r)
            ''<w:trHeight w:val="600" />'' = js_includes r ''<w:trHeight w:val="600" />''\<close>
  by (induction rows) (simp_all add: dataRow_no_600 [OF assms])

lemma headerRow_no_600:
  assumes "lt_free_style st"
  shows \<open>js_includes (generateTableHeaderRow hs st @ r) ''<w:trHeight w:val="600" />'' =
         js_includes r ''<w:trHeight w:val="600" />''\<close>
  by (simp add: generateTableHeaderRow_def Let_def headerCells_no_600 [OF assms])

lemma gridCols_no_600:
  \<open>js_includes (concat (map gridCol hs) @ r) ''<w:trHeight w:val="600" />'' =
   js_includes r ''<w:trHeight w:val="600" />''\<close>
  by (induction hs) (simp_all add: gridCol_def js_includes_skip_char show_int_no_lt)

lemma generateTable_no_600:
  assumes "lt_free_style st"
  shows \<open>\<not> js_includes (generateTable hs rows (Some st)) ''<w:trHeight w:val="600" />''\<close>
  using assms
  by (simp add: generateTable_def Let_def lt_free_style_def js_includes_skip_char
        gridCols_no_600 headerRow_no_600 [OF assms] dataRows_no_600 [OF assms])

lemma test_style:
  "spread_style DEFAULT_TABLE_STYLE (DEFAULT_TABLE_STYLE\<lparr>headerHeight := Some 600, rowHeight := Some 500\<rparr>)
   = DEFAULT_TABLE_STYLE\<lparr>headerHeight := Some 600, rowHeight := Some 500\<rparr>"
  by (simp add: spread_style_def DEFAULT_TABLE_STYLE_def over_def)

lemma uniqueId_fresh: "uniqueId existingIds index ident counter \<notin> set existingIds"
proof (induction existingIds index ident counter rule: uniqueId.induct)
  case (1 existingIds index ident counter)
  show ?case
  proof (cases "ident \<in> set existingIds")
    case True
    with 1 show ?thesis by (subst uniqueId.simps) simp
  next
    case False
    then show ?thesis by (subst uniqueId.simps) simp
  qed
qed

lemma prepareImage_fresh:
  "prepareImage env config index existingIds = Inr prepared \<Longrightarrow> p_id prepared \<notin> set existingIds"
  by (auto simp: prepareImage_def Let_def uniqueId_fresh split: sum.splits)

lemma prepare_from_unique:
  "prepare_from env existingIds configs i acc = Inr out \<Longrightarrow>
   distinct (map p_id acc) \<Longrightarrow> set (map p_id acc) \<inter> set existingIds = {} \<Longrightarrow>
   distinct (map p_id out) \<and> set (map p_id out) \<inter> set existingIds = {}"
proof (induction configs arbitrary: i acc)
  case Nil
  then show ?case by simp
next
  case (Cons config rest)
  from Cons.prems(1) obtain prepared where
    p: "prepareImage env config i (existingIds @ map p_id acc) = Inr prepared" and
    r: "prepare_from env existingIds rest (i + 1) (acc @ [prepared]) = Inr out"
    by (auto split: sum.splits)
  from prepareImage_fresh [OF p] have f: "p_id prepared \<notin> set existingIds \<union> set (map p_id acc)"
    by simp
  have "distinct (map p_id (acc @ [prepared]))" using Cons.prems(2) f by auto
  moreover have "set (map p_id (acc @ [prepared])) \<inter> set existingIds = {}"
    using Cons.prems(3) f by auto
  ultimately show ?case using Cons.IH [OF r] by blast
qed

lemma generateTable_ignores_style_heights:
  "generateTable headers rows
     (Some (st\<lparr>headerHeight := hh, rowHeight := rh, tableAlign := ta, cellPadding := cp,
              borderSize := bs\<rparr>)) =
   generateTable headers rows (Some st)"
  by (simp add: generateTable_def generateTableHeaderRow_def generateTableDataRow_def
        headerCell_ignores dataCell_ignores)

lemma js_includes_inside: "js_includes h p \<Longrightarrow> js_includes (a @ h @ b) p"
proof -
  assume "js_includes h p"
  then obtain c d where "h = c @ p @ d" by (auto simp: js_includes_iff)
  then have "a @ h @ b = (a @ c) @ p @ (d @ b)" by simp
  then show ?thesis unfolding js_includes_iff by blast
qed

lemma headerRow_has_400:
  \<open>js_includes (generateTableHeaderRow hs st) ''<w:trHeight w:val="400" />''\<close>
  by (simp add: generateTableHeaderRow_def Let_def)

lemma generateTable_has_400:
  \<open>js_includes (generateTable hs rows (Some st)) ''<w:trHeight w:val="400" />''\<close>
proof -
  have "\<exists>a b. generateTable hs rows (Some st) = a @ generateTableHeaderRow hs st @ b"
    unfolding generateTable_def Let_def option.case
    by (metis append.assoc)
  then obtain a b where "generateTable hs rows (Some st) = a @ generateTableHeaderRow hs st @ b"
    by blast
  with js_includes_inside [OF headerRow_has_400, of a hs st b] show ?thesis by simp
qed

text \<open>A pass over images whose sources can all be read returns a result.\<close>

lemma prepare_from_returns:
  assumes "\<And>c. c \<in> set configs \<Longrightarrow>
             (\<exists>b. getImageBuffer env c = Inr b) \<and> (\<exists>e. getImageExtension env c = Inr e)"
  shows "\<exists>out. prepare_from env existingIds configs i acc = Inr out"
  using assms
proof (induction configs arbitrary: i acc)
  case Nil
  show ?case by simp
next
  case (Cons config rest)
  from Cons.prems [of config] obtain b e where
    "getImageBuffer env config = Inr b" "getImageExtension env config = Inr e" by auto
  then obtain prepared where
    "prepareImage env config i (existingIds @ map p_id acc) = Inr prepared"
    by (simp add: prepareImage_def Let_def)
  moreover have "\<exists>out. prepare_from env existingIds rest (i + 1) (acc @ [prepared]) = Inr out"
    by (rule Cons.IH) (simp add: Cons.prems)
  ultimately show ?case by simp
qed

section \<open>Facts about the split-run pattern\<close>

lemma rmatch_sound: "rmatch ci its s = Some r \<Longrightarrow> \<exists>m. s = m @ r \<and> lang ci its m"
proof (induction ci its s arbitrary: r rule: rmatch.induct)
  case (1 ci s)
  then show ?case by simp
next
  case (2 ci c its)
  then show ?case by simp
next
  case (3 ci c its x xs)
  then obtain m where "xs = m @ r" "lang ci its m" "chr_eq ci c x" by (auto split: if_splits)
  then have "x # xs = (x # m) @ r \<and> lang ci (Lit c # its) (x # m)" by simp
  then show ?case by blast
next
  case (4 ci k its)
  then show ?case by simp
next
  case (5 ci k its x xs)
  then obtain m where "xs = m @ r" "lang ci its m" "cls_has k x" by (auto split: if_splits)
  then have "x # xs = (x # m) @ r \<and> lang ci (One k # its) (x # m)" by simp
  then show ?case by blast
next
  case (6 ci k its)
  then obtain m where "[] = m @ r" "lang ci its m" by auto
  then show ?case by auto
next
  case (7 ci k its x xs)
  show ?case
  proof (cases "cls_has k x")
    case True
    show ?thesis
    proof (cases "rmatch ci (Star k # its) xs")
      case None
      with True "7.prems" have "rmatch ci its (x # xs) = Some r" by simp
      with "7.IH"(2) [OF True None] obtain m where "x # xs = m @ r" "lang ci its m" by blast
      then show ?thesis by auto
    next
      case (Some r')
      with True "7.prems" have r: "r' = r" by simp
      from "7.IH"(1) [OF True] Some r obtain m where "xs = m @ r" "lang ci (Star k # its) m" by blast
      then have "x # xs = (x # m) @ r \<and> lang ci (Star k # its) (x # m)" using True by simp
      then show ?thesis by blast
    qed
  next
    case False
    with "7.prems" have "rmatch ci its (x # xs) = Some r" by simp
    with "7.IH"(3) [OF False] obtain m where "x # xs = m @ r" "lang ci its m" by blast
    then show ?thesis by auto
  qed
qed

lemma rmatch_complete_aux:
  "lang ci its m \<Longrightarrow> s = m @ r \<Longrightarrow> rmatch ci its s \<noteq> None"
proof (induction ci its s arbitrary: m rule: rmatch.induct)
  case (1 ci s)
  show ?case by simp
next
  case (2 ci c its)
  then show ?case by simp
next
  case (3 ci c its x xs)
  from "3.prems" obtain m' where m: "m = x # m'" "chr_eq ci c x" "lang ci its m'" "xs = m' @ r"
    by (cases m) auto
  from "3.IH" [OF m(2) m(3) m(4)] m(2) show ?case by simp
next
  case (4 ci k its)
  then show ?case by simp
next
  case (5 ci k its x xs)
  from "5.prems" obtain m' where m: "m = x # m'" "cls_has k x" "lang ci its m'" "xs = m' @ r"
    by (cases m) auto
  from "5.IH" [OF m(2) m(3) m(4)] m(2) show ?case by simp
next
  case (6 ci k its)
  from "6.prems" have "m = []" "r = []" by simp_all
  with "6.prems" have "lang ci its []" by simp
  from "6.IH" [OF this] \<open>r = []\<close> show ?case by simp
next
  case (7 ci k its x xs)
  show ?case
  proof (cases "cls_has k x")
    case True
    show ?thesis
    proof (cases "rmatch ci (Star k # its) xs")
      case None
      have l: "lang ci its m"
      proof (rule ccontr)
        assume n: "\<not> lang ci its m"
        with "7.prems" obtain m' where m: "m = x # m'" "lang ci (Star k # its) m'" "xs = m' @ r"
          by (cases m) auto
        from "7.IH"(1) [OF True m(2) m(3)] None show False by simp
      qed
      from "7.IH"(2) [OF True None l "7.prems"(2)] True None show ?thesis by simp
    next
      case (Some r')
      with True show ?thesis by simp
    qed
  next
    case False
    with "7.prems" have l: "lang ci its m" by (cases m) auto
    from "7.IH"(3) [OF False l "7.prems"(2)] False show ?thesis by simp
  qed
qed

lemma rmatch_complete: "lang ci its m \<Longrightarrow> rmatch ci its (m @ r) \<noteq> None"
  by (rule rmatch_complete_aux) simp_all

lemma lang_length: "lang ci its m \<Longrightarrow> lits its \<le> length m"
proof (induction ci its m rule: lang.induct)
  case (1 ci m)
  then show ?case by simp
next
  case (2 ci c its m)
  then show ?case by (cases m) auto
next
  case (3 ci k its m)
  then show ?case by (cases m) auto
next
  case (4 ci k its m)
  then show ?case by (cases m) auto
qed

lemma lang_append:
  "lang ci (a @ b) m \<Longrightarrow> \<exists>m1 m2. m = m1 @ m2 \<and> lang ci a m1 \<and> lang ci b m2"
proof (induction ci a m rule: lang.induct)
  case (1 ci m)
  then have "m = [] @ m \<and> lang ci [] [] \<and> lang ci b m" by simp
  then show ?case by blast
next
  case (2 ci c its m)
  from "2.prems" obtain x xs where m: "m = x # xs" "chr_eq ci c x" "lang ci (its @ b) xs"
    by (cases m) auto
  from "2.IH" [OF m(1) m(3)] obtain m1 m2 where "xs = m1 @ m2" "lang ci its m1" "lang ci b m2"
    by blast
  with m have "m = (x # m1) @ m2 \<and> lang ci (Lit c # its) (x # m1) \<and> lang ci b m2" by simp
  then show ?case by blast
next
  case (3 ci k its m)
  from "3.prems" obtain x xs where m: "m = x # xs" "cls_has k x" "lang ci (its @ b) xs"
    by (cases m) auto
  from "3.IH" [OF m(1) m(3)] obtain m1 m2 where "xs = m1 @ m2" "lang ci its m1" "lang ci b m2"
    by blast
  with m have "m = (x # m1) @ m2 \<and> lang ci (One k # its) (x # m1) \<and> lang ci b m2" by simp
  then show ?case by blast
next
  case (4 ci k its m)
  from "4.prems" consider "lang ci (its @ b) m"
    | x xs where "m = x # xs" "cls_has k x" "lang ci (Star k # its @ b) xs"
    by (cases m) auto
  then show ?case
  proof cases
    case 1
    from "4.IH"(1) [OF 1] obtain m1 m2 where "m = m1 @ m2" "lang ci its m1" "lang ci b m2"
      by blast
    then have "m = m1 @ m2 \<and> lang ci (Star k # its) m1 \<and> lang ci b m2" by simp
    then show ?thesis by blast
  next
    case 2
    from 2(3) have "lang ci ((Star k # its) @ b) xs" by simp
    from "4.IH"(2) [OF 2(1) this] obtain m1 m2 where
      "xs = m1 @ m2" "lang ci (Star k # its) m1" "lang ci b m2" by blast
    with 2 have "m = (x # m1) @ m2 \<and> lang ci (Star k # its) (x # m1) \<and> lang ci b m2" by simp
    then show ?thesis by blast
  qed
qed

lemma lang_lits: "lang ci (map Lit l) m \<Longrightarrow> list_all2 (chr_eq ci) l m"
proof (induction l arbitrary: m)
  case Nil
  then show ?case by simp
next
  case (Cons c l)
  then show ?case by (cases m) auto
qed

lemma lang_star_skip: "lang ci its m \<Longrightarrow> lang ci (Star k # its) m"
  by simp

lemma lang_join:
  "list_all2 (chr_eq ci) p q \<Longrightarrow> lang ci its r \<Longrightarrow>
   lang ci (join_items (map Lit p) (Star k) @ its) (q @ r)"
proof (induction p arbitrary: q)
  case Nil
  then show ?case by simp
next
  case (Cons c p)
  from Cons.prems(1) obtain x q' where q: "q = x # q'" "chr_eq ci c x" "list_all2 (chr_eq ci) p q'"
    by (cases q) auto
  show ?case
  proof (cases p)
    case Nil
    with q Cons.prems(2) show ?thesis by simp
  next
    case (Cons d p')
    from Cons.IH [OF q(3) Cons.prems(2)]
    have "lang ci (join_items (map Lit p) (Star k) @ its) (q' @ r)" .
    with q Cons show ?thesis by simp
  qed
qed

lemma lits_append: "lits (a @ b) = lits a + lits b"
  by (induction a rule: lits.induct) simp_all

lemma lits_map_Lit: "lits (map Lit l) = length l"
  by (induction l) simp_all

lemma lits_join: "lits (join_items (map Lit p) (Star k)) = length p"
proof (induction p)
  case Nil
  show ?case by simp
next
  case (Cons c p)
  then show ?case by (cases p) simp_all
qed

lemma chr_eq_refl: "chr_eq ci c c"
  by (simp add: chr_eq_def)

lemma canon_lt: "canon x = CHR ''<'' \<Longrightarrow> x = CHR ''<''"
proof (rule ccontr)
  assume c: "canon x = CHR ''<''" and n: "x \<noteq> CHR ''<''"
  let ?n = "of_char x :: nat"
  have lt: "?n < 256" by simp
  from c n have cond: "(97 \<le> ?n \<and> ?n \<le> 122) \<or> (224 \<le> ?n \<and> ?n \<le> 254 \<and> ?n \<noteq> 247)"
    and e: "char_of (?n - 32) = CHR ''<''"
    by (auto simp: canon_def Let_def split: if_splits)
  from e have "of_char (char_of (?n - 32) :: char) = (of_char (CHR ''<'') :: nat)" by simp
  then have "(?n - 32) mod 256 = 60" by simp
  moreover have "(?n - 32) mod 256 = ?n - 32" using lt by (intro mod_less) arith
  ultimately show False using cond by arith
qed

lemma chr_eq_lt: "chr_eq ci (CHR ''<'') x \<Longrightarrow> x = CHR ''<''"
proof -
  have "canon (CHR ''<'') = CHR ''<''" by (simp add: canon_def)
  then show "chr_eq ci (CHR ''<'') x \<Longrightarrow> x = CHR ''<''"
    by (cases ci) (auto simp: chr_eq_def dest: canon_lt [OF sym])
qed

lemma split_run_lits: "lits (split_run_items p) = 11 + length p"
  by (simp add: split_run_items_def lits_append lits_join lits_map_Lit)

lemma split_run_lang:
  assumes "list_all2 (chr_eq True) p q"
  shows \<open>lang True (split_run_items p) (''<w:t>'' @ q @ ''</w:t>'')\<close>
proof -
  have \<open>lang True ([Star Space] @ map Lit ''</w:t>'') ''</w:t>''\<close>
    by (simp add: chr_eq_refl)
  from lang_join [OF assms this, of NotAlpha]
  show ?thesis by (simp add: split_run_items_def chr_eq_refl)
qed

lemma split_run_full_match:
  assumes "list_all2 (chr_eq True) p q"
  shows \<open>rmatch True (split_run_items p) (''<w:t>'' @ q @ ''</w:t>'') = Some []\<close>
proof -
  let ?C = \<open>''<w:t>'' @ q @ ''</w:t>''\<close>
  from rmatch_complete [OF split_run_lang [OF assms], of "[]"]
  obtain r where r: "rmatch True (split_run_items p) ?C = Some r" by auto
  from rmatch_sound [OF r] obtain m where m: "?C = m @ r" "lang True (split_run_items p) m"
    by blast
  from lang_length [OF m(2)] have "11 + length p \<le> length m" by (simp add: split_run_lits)
  moreover have "length ?C = 11 + length q" by simp
  moreover have "length p = length q" using assms by (rule list_all2_lengthD)
  moreover have "length ?C = length m + length r" using m(1) by (metis length_append)
  ultimately have "length r = 0" by arith
  with r show ?thesis by simp
qed

lemma canon_fixed:
  assumes c: "canon x = c"
    and n1: "\<not> (65 \<le> (of_char c :: nat) \<and> (of_char c :: nat) \<le> 90)"
    and n2: "\<not> (192 \<le> (of_char c :: nat) \<and> (of_char c :: nat) \<le> 222)"
  shows "x = c"
proof (rule ccontr)
  assume n: "x \<noteq> c"
  let ?n = "of_char x :: nat"
  have lt: "?n < 256" by simp
  from c n have cond: "(97 \<le> ?n \<and> ?n \<le> 122) \<or> (224 \<le> ?n \<and> ?n \<le> 254 \<and> ?n \<noteq> 247)"
    and e: "char_of (?n - 32) = c"
    by (auto simp: canon_def Let_def split: if_splits)
  from e have "of_char (char_of (?n - 32) :: char) = (of_char c :: nat)" by simp
  then have "(?n - 32) mod 256 = of_char c" by simp
  moreover have "(?n - 32) mod 256 = ?n - 32" using lt by (intro mod_less) arith
  ultimately show False using cond n1 n2 by arith
qed

lemma canon_brace: "canon x = canon y \<Longrightarrow> x = CHR ''{'' \<Longrightarrow> y = CHR ''{''"
proof -
  assume e: "canon x = canon y" and x: "x = CHR ''{''"
  have "canon (CHR ''{'') = CHR ''{''" by (simp add: canon_def)
  with e x have "canon y = CHR ''{''" by simp
  then show ?thesis by (rule canon_fixed) simp_all
qed

lemma js_includes_set: "js_includes s t \<Longrightarrow> set t \<subseteq> set s"
  by (auto simp: js_includes_iff)

lemma js_includes_same_length: "js_includes s t \<Longrightarrow> length s = length t \<Longrightarrow> s = t"
  by (auto simp: js_includes_iff)

lemma replace_g_unmatched:
  "(\<And>t. suffix t s \<Longrightarrow> rmatch ci items t = None) \<Longrightarrow> replace_g ci items repl pre s = s"
proof (induction s arbitrary: pre)
  case Nil
  then have "rmatch ci items [] = None" by simp
  then show ?case by (subst replace_g.simps) simp
next
  case (Cons x xs)
  have h: "rmatch ci items (x # xs) = None" by (rule Cons.prems) simp
  have "replace_g ci items repl (pre @ [x]) xs = xs"
    by (rule Cons.IH) (simp add: Cons.prems suffix_ConsI)
  with h show ?case by (subst replace_g.simps) simp
qed

lemma split_unique:
  assumes "c \<notin> set K" "c \<notin> set b" "K @ c # b = u @ c # w"
  shows "u = K \<and> w = b"
proof -
  from assms(3) obtain us where
    "(K = u @ us \<and> us @ c # b = c # w) \<or> (K @ us = u \<and> c # b = us @ c # w)"
    unfolding append_eq_append_conv2 by blast
  then show ?thesis
  proof
    assume a: "K = u @ us \<and> us @ c # b = c # w"
    show ?thesis
    proof (cases us)
      case Nil
      with a show ?thesis by simp
    next
      case (Cons y ys)
      with a have "y = c" "y \<in> set K" by simp_all
      with assms(1) show ?thesis by simp
    qed
  next
    assume a: "K @ us = u \<and> c # b = us @ c # w"
    show ?thesis
    proof (cases us)
      case Nil
      with a show ?thesis by simp
    next
      case (Cons y ys)
      with a have "b = ys @ c # w" by simp
      with assms(2) show ?thesis by simp
    qed
  qed
qed

lemma run_tail_unmatched:
  assumes safe: "CHR ''<'' \<notin> set safe"
    and t: \<open>suffix t (''w:t>'' @ safe @ ''</w:t>'')\<close>
  shows "rmatch True (split_run_items p) t = None"
proof (cases t)
  case Nil
  then show ?thesis by (simp add: split_run_items_def)
next
  case (Cons x xs)
  show ?thesis
  proof (cases "x = CHR ''<''")
    case False
    then have "\<not> chr_eq True (CHR ''<'') x" using chr_eq_lt by blast
    then show ?thesis using Cons by (simp add: split_run_items_def)
  next
    case True
    from t Cons True obtain u where u: \<open>''w:t>'' @ safe @ ''</w:t>'' = u @ CHR ''<'' # xs\<close>
      by (auto simp: suffix_def)
    have \<open>(''w:t>'' @ safe) @ CHR ''<'' # ''/w:t>'' = u @ CHR ''<'' # xs\<close> using u by simp
    from split_unique [OF _ _ this] safe have \<open>xs = ''/w:t>''\<close> by simp
    with Cons True show ?thesis by (simp add: split_run_items_def chr_eq_def canon_def)
  qed
qed

lemma run_match_is_full:
  assumes safe: "CHR ''<'' \<notin> set safe"
    and r: \<open>rmatch True (split_run_items p) (''<w:t>'' @ safe @ ''</w:t>'') = Some rest\<close>
  shows "rest = []"
proof -
  let ?I = \<open>''<w:t>'' @ safe @ ''</w:t>''\<close>
  let ?A = \<open>map Lit ''<w:t'' @ [Star NotGt, Lit CHR ''>'', Star Space] @
     join_items (map Lit p) (Star NotAlpha) @ [Star Space]\<close>
  have items: \<open>split_run_items p = ?A @ map Lit ''</w:t>''\<close>
    by (simp add: split_run_items_def)
  from rmatch_sound [OF r] obtain m where m: "?I = m @ rest" "lang True (split_run_items p) m"
    by blast
  from lang_append [OF m(2) [unfolded items]] obtain m1 m2 where
    m12: "m = m1 @ m2" "lang True ?A m1" \<open>lang True (map Lit ''</w:t>'') m2\<close> by blast
  from lang_lits [OF m12(3)] obtain x m2' where m2: "m2 = x # m2'" "chr_eq True (CHR ''<'') x"
    "length m2' = 5"
    by (auto simp: list_all2_Cons1)
  from m2(2) have x: "x = CHR ''<''" by (rule chr_eq_lt)
  from lang_length [OF m12(2)] have "1 \<le> length m1" by (simp add: lits_append lits_join lits_map_Lit)
  then obtain y m1' where m1: "m1 = y # m1'" by (cases m1) auto
  have "tl ?I = tl (m @ rest)" using m(1) by (rule arg_cong)
  then have \<open>''w:t>'' @ safe @ ''</w:t>'' = m1' @ x # (m2' @ rest)\<close>
    using m12(1) m1 m2(1) by simp
  then have \<open>''w:t>'' @ safe @ ''</w:t>'' = m1' @ CHR ''<'' # (m2' @ rest)\<close>
    by (simp only: x)
  then have \<open>(''w:t>'' @ safe) @ CHR ''<'' # ''/w:t>'' = m1' @ CHR ''<'' # (m2' @ rest)\<close>
    by simp
  from split_unique [OF _ _ this] safe have \<open>m2' @ rest = ''/w:t>''\<close> by simp
  then have \<open>length (m2' @ rest) = length ''/w:t>''\<close> by (rule arg_cong)
  then have "length m2' + length rest = 5" by simp
  with m2(3) show ?thesis by simp
qed

lemma replace_g_whole_literal:
  assumes "CHR ''$'' \<notin> set repl" "pat \<noteq> []"
  shows "replace_g False (map Lit pat) repl pre pat = repl"
proof -
  have e: "replace_g False (map Lit pat) repl (pre @ pat) [] = []"
    using assms(2) by (subst replace_g.simps) (simp add: rmatch_lit)
  show ?thesis
    using assms e by (subst replace_g.simps) (simp add: rmatch_lit expand_plain)
qed

lemma split_run_on_run:
  assumes d: "CHR ''$'' \<notin> set safe" and lt: "CHR ''<'' \<notin> set safe"
  shows \<open>replace_g True (split_run_items p) (''<w:t>'' @ safe @ ''</w:t>'') pre
           (''<w:t>'' @ safe @ ''</w:t>'') = ''<w:t>'' @ safe @ ''</w:t>''\<close>
proof -
  let ?I = \<open>''<w:t>'' @ safe @ ''</w:t>''\<close>
  have dI: "CHR ''$'' \<notin> set ?I" using d by simp
  have e: "rmatch True (split_run_items p) [] = None" by (simp add: split_run_items_def)
  show ?thesis
  proof (cases "rmatch True (split_run_items p) ?I")
    case None
    have "rmatch True (split_run_items p) t = None" if "suffix t ?I" for t
    proof (cases "t = ?I")
      case True
      with None show ?thesis by simp
    next
      case False
      with that have \<open>suffix t (''w:t>'' @ safe @ ''</w:t>'')\<close>
        by (auto simp: suffix_Cons)
      with lt show ?thesis by (rule run_tail_unmatched)
    qed
    then show ?thesis by (rule replace_g_unmatched)
  next
    case (Some rest)
    with lt have rest: "rest = []" by (rule run_match_is_full)
    have "replace_g True (split_run_items p) ?I (pre @ ?I) [] = []"
      using e by (subst replace_g.simps) simp
    with Some rest dI show ?thesis
      by (subst replace_g.simps) (simp add: expand_plain)
  qed
qed

section \<open>Facts about decoding\<close>

lemma replace_g_lit_step_yes:
  "pat \<noteq> [] \<Longrightarrow> CHR ''$'' \<notin> set repl \<Longrightarrow>
   replace_g False (map Lit pat) repl pre (pat @ r) =
     repl @ replace_g False (map Lit pat) repl (pre @ pat) r"
  by (subst replace_g.simps) (simp add: rmatch_lit expand_plain)

lemma replace_g_lit_pass:
  assumes "pat = c # pt" and "c \<notin> set (tl blk)" and "\<not> prefix pat (blk @ r)"
  shows "replace_g False (map Lit pat) repl pre (blk @ r) =
           blk @ replace_g False (map Lit pat) repl (pre @ blk) r"
  using assms(2,3)
proof (induction blk arbitrary: pre)
  case Nil
  show ?case by simp
next
  case (Cons x xs)
  have 1: "replace_g False (map Lit pat) repl pre ((x # xs) @ r) =
             x # replace_g False (map Lit pat) repl (pre @ [x]) (xs @ r)"
    using Cons.prems(2) by (subst replace_g.simps) (simp add: rmatch_lit)
  have 2: "replace_g False (map Lit pat) repl (pre @ [x]) (xs @ r) =
             xs @ replace_g False (map Lit pat) repl ((pre @ [x]) @ xs) r"
  proof (cases xs)
    case Nil
    then show ?thesis by simp
  next
    case (Cons y ys)
    with Cons.prems(1) have y: "y \<noteq> c" "c \<notin> set (tl xs)" by auto
    then have "\<not> prefix pat (xs @ r)" using assms(1) Cons by simp
    with y(2) show ?thesis by (rule Cons.IH)
  qed
  from 1 2 show ?case by simp
qed

lemma replace_g_lit_Nil: "pat \<noteq> [] \<Longrightarrow> replace_g False (map Lit pat) repl pre [] = []"
  by (subst replace_g.simps) (simp add: rmatch_lit)

lemma decode_pass:
  assumes P: "P = CHR ''&'' # pt" and R: "CHR ''$'' \<notin> set R"
    and tgt: "c \<in> set s \<Longrightarrow> enc k c = P \<and> enc (Suc k) c = R"
    and oth: "\<And>x. x \<noteq> c \<Longrightarrow> x \<noteq> CHR ''&'' \<Longrightarrow>
                enc (Suc k) x = enc k x \<and> CHR ''&'' \<notin> set (tl (enc k x)) \<and>
                (\<forall>r. \<not> prefix P (enc k x @ r))"
    and s: "CHR ''&'' \<notin> set s"
  shows "replace_g False (map Lit P) R pre (concat (map (enc k) s)) = concat (map (enc (Suc k)) s)"
  using tgt s
proof (induction s arbitrary: pre)
  case Nil
  have "P \<noteq> []" using P by simp
  then have "replace_g False (map Lit P) R pre [] = []" by (rule replace_g_lit_Nil)
  then show ?case by simp
next
  case (Cons x xs)
  have IH: "replace_g False (map Lit P) R pre' (concat (map (enc k) xs)) =
              concat (map (enc (Suc k)) xs)" for pre'
    using Cons by simp
  have x: "x \<noteq> CHR ''&''" using Cons.prems(2) by auto
  show ?case
  proof (cases "x = c")
    case True
    with Cons.prems(1) have "enc k x = P" "enc (Suc k) x = R" by simp_all
    then show ?thesis using replace_g_lit_step_yes [OF _ R, of P] P IH by simp
  next
    case False
    from oth [OF False x] have e: "enc (Suc k) x = enc k x" "CHR ''&'' \<notin> set (tl (enc k x))"
      "\<not> prefix P (enc k x @ concat (map (enc k) xs))" by simp_all
    from replace_g_lit_pass [OF P e(2) e(3)] e(1) IH show ?thesis by simp
  qed
qed

lemma concat_map_concat_map:
  "concat (map f (concat (map g s))) = concat (map (\<lambda>x. concat (map f (g x))) s)"
  by (induction s) simp_all

lemma escape_chain_enc:
  "CHR ''&'' \<notin> set s \<Longrightarrow> escape_chain s = concat (map (enc 0) s)"
proof -
  assume a: "CHR ''&'' \<notin> set s"
  have 1: \<open>concat (map (\<lambda>x. if x = CHR ''&'' then ''&amp;'' else [x]) s) = s\<close>
    using a by (induction s) auto
  show ?thesis
    unfolding escape_chain_subst 1 concat_map_concat_map
    by (rule arg_cong [where f = concat], rule map_cong [OF refl]) (simp add: enc_def)
qed

lemma unescape_chain_enc:
  assumes s: "CHR ''&'' \<notin> set s"
  shows "unescape_chain (concat (map (enc 0) s)) = s"
proof -
  have 1: \<open>replace_g False (map Lit ''&amp;'') ''&'' [] (concat (map (enc 0) s)) =
           concat (map (enc (Suc 0)) s)\<close>
    by (rule decode_pass [where c = \<open>CHR ''&''\<close>]) (use s in \<open>auto simp: enc_def\<close>)
  have 2: \<open>replace_g False (map Lit ''&lt;'') ''<'' [] (concat (map (enc (Suc 0)) s)) =
           concat (map (enc (Suc (Suc 0))) s)\<close>
    by (rule decode_pass [where c = \<open>CHR ''<''\<close>]) (use s in \<open>auto simp: enc_def\<close>)
  have 3: \<open>replace_g False (map Lit ''&gt;'') ''>'' [] (concat (map (enc (Suc (Suc 0))) s)) =
           concat (map (enc (Suc (Suc (Suc 0)))) s)\<close>
    by (rule decode_pass [where c = \<open>CHR ''>''\<close>]) (use s in \<open>auto simp: enc_def\<close>)
  have 4: \<open>replace_g False (map Lit ''&quot;'') [CHR 0x22] [] (concat (map (enc (Suc (Suc (Suc 0)))) s)) =
           concat (map (enc (Suc (Suc (Suc (Suc 0))))) s)\<close>
    by (rule decode_pass [where c = \<open>CHR 0x22\<close>]) (use s in \<open>auto simp: enc_def\<close>)
  have 5: \<open>replace_g False (map Lit ''&apos;'') [CHR 0x27] [] (concat (map (enc (Suc (Suc (Suc (Suc 0))))) s)) =
           concat (map (enc (Suc (Suc (Suc (Suc (Suc 0)))))) s)\<close>
    by (rule decode_pass [where c = \<open>CHR 0x27\<close>]) (use s in \<open>auto simp: enc_def\<close>)
  have 6: "concat (map (enc (Suc (Suc (Suc (Suc (Suc 0)))))) s) = s"
    by (induction s) (simp_all add: enc_def)
  show ?thesis unfolding unescape_chain_def 1 2 3 4 5 6 ..
qed

section \<open>The entity codec\<close>

text \<open>
  C1. Decoding an encoded string should give the string back. \<^verbatim>\<open>unescapeXml\<close> replaces
  \<^verbatim>\<open>&amp;\<close> first, so on the encoded form \<^verbatim>\<open>&amp;lt;\<close> of the four characters
  \<^verbatim>\<open>&lt;\<close> the second replacement sees \<^verbatim>\<open>&lt;\<close> and decodes it again: the round trip
  yields the single character \<^verbatim>\<open><\<close>.
\<close>

theorem unescapeXml_escapeForXml_amp_lt:
  \<open>escapeForXml (JStr ''&lt;'') = ''&amp;lt;'' \<and>
   unescapeXml (JStr (escapeForXml (JStr ''&lt;''))) = ''<'' \<and>
   unescapeXml (JStr (escapeForXml (JStr ''&lt;''))) \<noteq> ''&lt;''\<close>
  by code_simp

theorem unescapeXml_escapeForXml_amp_lt_witness:
  \<open>unescapeXml (JStr (escapeForXml (JStr ''&lt;''))) = ''<''\<close>
  by (rule conjunct1 [OF conjunct2 [OF unescapeXml_escapeForXml_amp_lt]])

text \<open>
  The defect needs an ampersand in the text: a string without one survives the round trip.
\<close>

lemma unescapeXml_escapeForXml_no_amp:
  assumes "CHR ''&'' \<notin> set s"
  shows "unescapeXml (JStr (escapeForXml (JStr s))) = s"
proof (cases "s = []")
  case True
  then show ?thesis by (simp add: unescapeXml_def escapeForXml_def)
next
  case False
  then have ne: "escape_chain s \<noteq> []" by (rule escape_chain_nonempty)
  have "unescape_chain (escape_chain s) = s"
    using assms by (simp add: escape_chain_enc unescape_chain_enc)
  with False ne show ?thesis by (simp add: unescapeXml_def escapeForXml_def)
qed

text \<open>
  C6, as stated: every codec operation returns the empty string on \<^verbatim>\<open>null\<close>. It fails
  for \<^verbatim>\<open>fixDoubleEscaping\<close>, whose only guard is the one of \<^verbatim>\<open>replaceAll\<close>, which
  returns its argument.
\<close>

theorem fixDoubleEscaping_null_not_empty:
  "\<not> typeof_string JNull \<and> fixDoubleEscaping JNull = JNull \<and> fixDoubleEscaping JNull \<noteq> JStr []"
  by (simp add: fixDoubleEscaping_def)

text \<open>
  C6, amended: on every input that is not a string \<^verbatim>\<open>escapeForXml\<close> and
  \<^verbatim>\<open>unescapeXml\<close> return the empty string and \<^verbatim>\<open>fixDoubleEscaping\<close> returns the input
  unchanged; none of the three throws (each is a total function with no error result).
\<close>

theorem codec_non_string_input:
  "\<not> typeof_string v \<Longrightarrow>
     escapeForXml v = [] \<and> unescapeXml v = [] \<and> fixDoubleEscaping v = v"
  by (cases v) (simp_all add: escapeForXml_def unescapeXml_def fixDoubleEscaping_def)

theorem codec_non_string_input_witness:
  "\<not> typeof_string (JNum 7) \<and>
     escapeForXml (JNum 7) = [] \<and> unescapeXml (JNum 7) = [] \<and>
     fixDoubleEscaping (JNum 7) = JNum 7"
proof -
  have h: "\<not> typeof_string (JNum 7)" by simp
  show ?thesis using h codec_non_string_input [OF h] by simp
qed

lemma fixDoubleEscaping_single_escaped:
  assumes \<open>\<not> js_includes s ''&amp;amp;''\<close>
      and \<open>\<not> js_includes s ''&amp;lt;''\<close>
      and \<open>\<not> js_includes s ''&amp;gt;''\<close>
      and \<open>\<not> js_includes s ''&amp;quot;''\<close>
      and \<open>\<not> js_includes s ''&amp;apos;''\<close>
  shows "fixDoubleEscaping (JStr s) = JStr s"
  using assms by (simp add: fixDoubleEscaping_def replaceAll_str_absent)

text \<open>
  C7. On a string that contains none of the five double-escaped sequences the repair is
  idempotent: applying it twice equals applying it once.
\<close>

theorem fixDoubleEscaping_idempotent:
  assumes \<open>\<not> js_includes s ''&amp;amp;''\<close>
      and \<open>\<not> js_includes s ''&amp;lt;''\<close>
      and \<open>\<not> js_includes s ''&amp;gt;''\<close>
      and \<open>\<not> js_includes s ''&amp;quot;''\<close>
      and \<open>\<not> js_includes s ''&amp;apos;''\<close>
  shows "fixDoubleEscaping (fixDoubleEscaping (JStr s)) = fixDoubleEscaping (JStr s)"
  using assms by (simp add: fixDoubleEscaping_single_escaped)

theorem fixDoubleEscaping_idempotent_witness:
  \<open>\<not> js_includes ''A &amp; B &lt; C'' ''&amp;amp;'' \<and>
   \<not> js_includes ''A &amp; B &lt; C'' ''&amp;lt;'' \<and>
   \<not> js_includes ''A &amp; B &lt; C'' ''&amp;gt;'' \<and>
   \<not> js_includes ''A &amp; B &lt; C'' ''&amp;quot;'' \<and>
   \<not> js_includes ''A &amp; B &lt; C'' ''&amp;apos;'' \<and>
   fixDoubleEscaping (fixDoubleEscaping (JStr ''A &amp; B &lt; C'')) =
     fixDoubleEscaping (JStr ''A &amp; B &lt; C'')\<close>
proof -
  have h1: \<open>\<not> js_includes ''A &amp; B &lt; C'' ''&amp;amp;''\<close> by simp
  have h2: \<open>\<not> js_includes ''A &amp; B &lt; C'' ''&amp;lt;''\<close> by simp
  have h3: \<open>\<not> js_includes ''A &amp; B &lt; C'' ''&amp;gt;''\<close> by simp
  have h4: \<open>\<not> js_includes ''A &amp; B &lt; C'' ''&amp;quot;''\<close> by simp
  have h5: \<open>\<not> js_includes ''A &amp; B &lt; C'' ''&amp;apos;''\<close> by simp
  show ?thesis
    using h1 h2 h3 h4 h5 fixDoubleEscaping_idempotent [OF h1 h2 h3 h4 h5] by simp
qed


section \<open>The placeholder matcher\<close>




text \<open>
  The other two conditions of the second part are needed as well: a value \<^verbatim>\<open>x\<close>, or an
  empty value, can close the braces that stand around the token. And a value with a dollar
  sign need not arrive: \<^verbatim>\<open>$$\<close> is inserted as one dollar sign.
\<close>

lemma replacePlaceholder_token_rebuilt:
  \<open>occurrences ''{{{{x}}}}'' ''{{x}}'' = 1 \<and>
   replacePlaceholder ''{{{{x}}}}'' ''x'' ''x'' = Some ''{{x}}'' \<and>
   occurrences ''{{{{x}}x}}'' ''{{x}}'' = 1 \<and>
   replacePlaceholder ''{{{{x}}x}}'' ''x'' [] = Some ''{{x}}''\<close>
  by code_simp

lemma replacePlaceholder_dollar_bracketed:
  \<open>replacePlaceholder ''{{x}}'' ''x'' ''$$'' = Some ''$'' \<and>
   escapeForXml (JStr ''$$'') = ''$$'' \<and>
   \<not> js_includes ''$'' ''$$''\<close>
  by code_simp

text \<open>
  C10. A text run whose content is the token name in another letter case should come out as
  the run of the escaped value. The replacement string is read as a template, so for the
  value \<^verbatim>\<open>$$\<close>, whose escaped form is \<^verbatim>\<open>$$\<close> again, the run comes out with one
  dollar sign.
\<close>

theorem replacePlaceholder_dollar_value:
  \<open>replacePlaceholder ''<w:t>NAME</w:t>'' ''name'' ''$$'' = Some ''<w:t>$</w:t>'' \<and>
   escape_chain ''$$'' = ''$$''\<close>
  by code_simp

text \<open>
  Apart from the dollar sign the run is replaced as C10 says: for a token name without a
  character of the pattern syntax and a value without a dollar sign, a text run whose
  content is the name in any letter case becomes the run of the escaped value.
\<close>

lemma replacePlaceholder_run:
  assumes plain: "\<not> list_ex regex_syntax_char p"
    and same: "map canon q = map canon p"
    and d: "CHR ''$'' \<notin> set v"
  shows \<open>replacePlaceholder (''<w:t>'' @ q @ ''</w:t>'') p v =
           Some (''<w:t>'' @ escapeForXml (JStr v) @ ''</w:t>'')\<close>
proof -
  let ?safe = "escape_chain v"
  let ?C = \<open>''<w:t>'' @ q @ ''</w:t>''\<close>
  let ?I = \<open>''<w:t>'' @ ?safe @ ''</w:t>''\<close>
  let ?tok = \<open>''{{'' @ p @ ''}}''\<close>
  let ?bare = \<open>''<w:t>'' @ p @ ''</w:t>''\<close>
  have ds: "CHR ''$'' \<notin> set ?safe" using d by (rule escape_chain_avoids) simp
  then have dI: "CHR ''$'' \<notin> set ?I" by simp
  have lt: "CHR ''<'' \<notin> set ?safe" by (rule escape_chain_no_lt)
  have len: "length q = length p" using same by (metis length_map)
  have all2: "list_all2 (chr_eq True) p q"
    unfolding list_all2_conv_all_nth
  proof (intro conjI allI impI)
    show "length p = length q" using len by simp
    fix i assume "i < length p"
    with len have "map canon q ! i = canon (q ! i)" "map canon p ! i = canon (p ! i)" by simp_all
    with same show "chr_eq True (p ! i) (q ! i)" by (simp add: chr_eq_def)
  qed
  have pb: "CHR ''{'' \<notin> set p"
    using plain by (auto simp: list_ex_iff regex_syntax_char_def)
  have qb: "CHR ''{'' \<notin> set q"
  proof
    assume "CHR ''{'' \<in> set q"
    then obtain i where i: "i < length q" "q ! i = CHR ''{''" by (auto simp: in_set_conv_nth)
    with len have "map canon q ! i = canon (q ! i)" "map canon p ! i = canon (p ! i)" by simp_all
    with same have "canon (q ! i) = canon (p ! i)" by simp
    from canon_brace [OF this i(2)] i(1) len have "CHR ''{'' \<in> set p" by (metis nth_mem)
    with pb show False by simp
  qed
  have 1: "replaceAll_str ?C ?tok ?safe = ?C"
  proof (rule replaceAll_str_absent)
    show "\<not> js_includes ?C ?tok"
    proof
      assume "js_includes ?C ?tok"
      then have "set ?tok \<subseteq> set ?C" by (rule js_includes_set)
      with qb show False by auto
    qed
  qed simp
  have 2: "replaceAll_str ?C ?bare ?I = (if q = p then ?I else ?C)"
  proof (cases "q = p")
    case True
    then show ?thesis
      using replace_g_whole_literal [OF dI, of ?bare "[]"] by (simp add: replaceAll_str_def)
  next
    case False
    have "\<not> js_includes ?C ?bare"
    proof
      assume "js_includes ?C ?bare"
      then have "?C = ?bare" using len by (intro js_includes_same_length) simp_all
      with False show False by simp
    qed
    with False show ?thesis by (simp add: replaceAll_str_absent)
  qed
  have 3: "replace_g True (split_run_items p) ?I [] (if q = p then ?I else ?C) = ?I"
  proof (cases "q = p")
    case True
    then show ?thesis using split_run_on_run [OF ds lt, of p "[]"] by simp
  next
    case False
    have e: "replace_g True (split_run_items p) ?I ([] @ ?C) [] = []"
      by (subst replace_g.simps) (simp add: split_run_items_def)
    from False split_run_full_match [OF all2] dI e show ?thesis
      by (subst replace_g.simps) (simp add: expand_plain)
  qed
  show ?thesis
    using plain 1 2 3
    by (simp add: replacePlaceholder_def escapeForXml_JStr split_run_regex_def Let_def)
qed

section \<open>The table markup generator\<close>

text \<open>
  C3. The header-row height, the data-row height, the alignment and the border size of the
  fragment should be those of the merged style. \<^verbatim>\<open>generateTable\<close> never reads these
  properties, the fragment is the same whatever they are: for the style of the unit test
  (\<^verbatim>\<open>headerHeight: 600\<close>, \<^verbatim>\<open>rowHeight: 500\<close> over the defaults) it has no row height of
  \<open>600\<close> and still the row height \<open>400\<close>.
\<close>

theorem generateTable_custom_heights_ignored:
  \<open>\<not> js_includes
       (generateTable
          [\<lparr>name = ''Header 1'', width = Some 1000\<rparr>, \<lparr>name = ''Header 2'', width = Some 2000\<rparr>]
          [[''Row 1 Col 1'', ''Row 1 Col 2''], [''Row 2 Col 1'', ''Row 2 Col 2'']]
          (Some (spread_style DEFAULT_TABLE_STYLE
             (DEFAULT_TABLE_STYLE\<lparr>headerHeight := Some 600, rowHeight := Some 500\<rparr>))))
       ''<w:trHeight w:val="600" />'' \<and>
   js_includes
       (generateTable
          [\<lparr>name = ''Header 1'', width = Some 1000\<rparr>, \<lparr>name = ''Header 2'', width = Some 2000\<rparr>]
          [[''Row 1 Col 1'', ''Row 1 Col 2''], [''Row 2 Col 1'', ''Row 2 Col 2'']]
          (Some (spread_style DEFAULT_TABLE_STYLE
             (DEFAULT_TABLE_STYLE\<lparr>headerHeight := Some 600, rowHeight := Some 500\<rparr>))))
       ''<w:trHeight w:val="400" />''\<close>
proof -
  have "lt_free_style (DEFAULT_TABLE_STYLE\<lparr>headerHeight := Some 600, rowHeight := Some 500\<rparr>)"
    by (simp add: lt_free_style_def DEFAULT_TABLE_STYLE_def show_str_def)
  then show ?thesis
    unfolding test_style by (intro conjI generateTable_no_600 generateTable_has_400)
qed

text \<open>
  C4, as stated: a data row renders \<open>min (length r) N\<close> cells for \<open>N\<close> columns. With one
  column and a row of two cells the rendered row has two cells.
\<close>

theorem data_row_extra_cells_rendered:
  \<open>length [\<lparr>name = ''Item'', width = None\<rparr>] = 1 \<and>
   occurrences
     (generateTableDataRow [''Pens'', ''10'']
        (map (\<lambda>h. or_default (width h) 2000) [\<lparr>name = ''Item'', width = None\<rparr>])
        DEFAULT_TABLE_STYLE) ''<w:tc>'' = 2 \<and>
   min (length [''Pens'', ''10'']) (length [\<lparr>name = ''Item'', width = None\<rparr>]) = 1\<close>
proof -
  have \<open>CHR ''<'' \<notin> set (show_str (fontFamily DEFAULT_TABLE_STYLE))\<close>
    by (simp add: DEFAULT_TABLE_STYLE_def show_str_def)
  then show ?thesis by (simp add: generateTableDataRow_count)
qed

text \<open>
  C4, amended: a data row renders exactly one cell element per cell of the row, whatever the
  number of columns: a shorter row is not padded and a longer row is not cut (a cell past
  the last column gets the width \<open>2000\<close>). The cell elements are counted as the places
  where \<^verbatim>\<open><w:tc>\<close> occurs, for a font family that does not itself contain \<^verbatim>\<open><\<close>.
\<close>

theorem generateTableDataRow_cell_count:
  assumes "CHR ''<'' \<notin> set (show_str (fontFamily style))"
  shows \<open>occurrences (generateTableDataRow cells widths style) ''<w:tc>'' = length cells\<close>
  using assms by (rule generateTableDataRow_count)

theorem generateTableDataRow_cell_count_witness:
  \<open>CHR ''<'' \<notin> set (show_str (fontFamily DEFAULT_TABLE_STYLE)) \<and>
   occurrences (generateTableDataRow [''Pens'', ''10''] [2000, 2000, 2000] DEFAULT_TABLE_STYLE)
     ''<w:tc>'' = 2\<close>
proof -
  have h: \<open>CHR ''<'' \<notin> set (show_str (fontFamily DEFAULT_TABLE_STYLE))\<close>
    by (simp add: DEFAULT_TABLE_STYLE_def show_str_def)
  show ?thesis
    using h generateTableDataRow_cell_count [OF h, of \<open>[''Pens'', ''10'']\<close> \<open>[2000, 2000, 2000]\<close>]
    by simp
qed

section \<open>Images and the registries\<close>

text \<open>
  C5. The relationship ids that one pass of \<^verbatim>\<open>processImages\<close> assigns are pairwise
  distinct and none of them is an id of the relationship part of the archive.
\<close>

theorem processImages_ids_unique:
  assumes "processImages env (Some z) images = Inr prepared"
  shows \<open>distinct (map p_id prepared) \<and>
         set (map p_id prepared) \<inter>
           set (extractRelationshipIds
                  (case z ''word/_rels/document.xml.rels'' of None \<Rightarrow> [] | Some c \<Rightarrow> c)) = {}\<close>
proof (cases "images = []")
  case True
  with assms show ?thesis by (auto simp: processImages_def)
next
  case False
  with assms have \<open>prepare_from env
      (extractRelationshipIds (case z ''word/_rels/document.xml.rels'' of None \<Rightarrow> [] | Some c \<Rightarrow> c))
      images 0 [] = Inr prepared\<close>
    by (simp add: processImages_def Let_def)
  from prepare_from_unique [OF this] show ?thesis by simp
qed

theorem processImages_ids_unique_witness:
  \<open>\<exists>prepared.
     processImages
       \<lparr>readFile = (\<lambda>p. Some ''bytes''), download = (\<lambda>u. None), extname = (\<lambda>p. ''.png''),
        url_pathname = (\<lambda>u. None), random_draw = (\<lambda>i j. 0)\<rparr>
       (Some (\<lambda>n. Some ''<Relationships><Relationship Id="rId1"/><Relationship Id="rId2"/></Relationships>''))
       [\<lparr>placeholder = ''a'', path = Some ''a.png'', buffer = None, url = None,
         img_width = None, img_height = None, img_id = None\<rparr>,
        \<lparr>placeholder = ''b'', path = Some ''b.png'', buffer = None, url = None,
         img_width = None, img_height = None, img_id = Some ''rId1''\<rparr>,
        \<lparr>placeholder = ''c'', path = Some ''c.png'', buffer = None, url = None,
         img_width = None, img_height = None, img_id = None\<rparr>] = Inr prepared \<and>
     distinct (map p_id prepared) \<and>
     set (map p_id prepared) \<inter> set [''rId1'', ''rId2''] = {}\<close>
proof -
  let ?env = \<open>\<lparr>readFile = (\<lambda>p. Some ''bytes''), download = (\<lambda>u. None), extname = (\<lambda>p. ''.png''),
        url_pathname = (\<lambda>u. None), random_draw = (\<lambda>i j. 0)\<rparr>\<close>
  let ?rels = \<open>''<Relationships><Relationship Id="rId1"/><Relationship Id="rId2"/></Relationships>''\<close>
  let ?z = \<open>\<lambda>n::string. Some ?rels\<close>
  let ?images = \<open>[\<lparr>placeholder = ''a'', path = Some ''a.png'', buffer = None, url = None,
         img_width = None, img_height = None, img_id = None\<rparr>,
        \<lparr>placeholder = ''b'', path = Some ''b.png'', buffer = None, url = None,
         img_width = None, img_height = None, img_id = Some ''rId1''\<rparr>,
        \<lparr>placeholder = ''c'', path = Some ''c.png'', buffer = None, url = None,
         img_width = None, img_height = None, img_id = None\<rparr>]\<close>
  have ids: \<open>extractRelationshipIds ?rels = [''rId1'', ''rId2'']\<close>
    by (simp add: extractRelationshipIds_def match_all.simps chr_eq_def)
  have "\<exists>out. prepare_from ?env (extractRelationshipIds ?rels) ?images 0 [] = Inr out"
    by (rule prepare_from_returns)
       (auto simp: getImageBuffer_def getImageExtension_def set_str_def loadImageFromPath_def)
  then obtain prepared where h: "processImages ?env (Some ?z) ?images = Inr prepared"
    by (auto simp: processImages_def Let_def)
  from processImages_ids_unique [OF h] ids h show ?thesis by simp
qed





text \<open>
  The first registration of an extension makes it declared wherever the text has a closing
  tag, so for an extension and a content type without a dollar sign a second registration
  changes nothing; registering \<^verbatim>\<open>png\<close> twice in an empty registry gives one declaration.
\<close>

lemma addContentType_idempotent:
  assumes de: "CHR ''$'' \<notin> set ext" and dt: "CHR ''$'' \<notin> set contentType"
  shows "addContentType (addContentType contentTypesXml ext contentType) ext contentType' =
         addContentType contentTypesXml ext contentType"
proof (cases \<open>js_includes contentTypesXml (''Extension="'' @ ext @ ''"'')\<close>)
  case True
  then show ?thesis by (simp add: addContentType_def Let_def)
next
  case False
  let ?decl = \<open>''Extension="'' @ ext @ ''"''\<close>
  let ?R = \<open>''<Default Extension="'' @ ext @ ''" ContentType="'' @ contentType @ ''" />'' @
            ''\<newline>'' @ ''</Types>''\<close>
  let ?r = \<open>replaceAll_str contentTypesXml ''</Types>'' ?R\<close>
  have first: "addContentType contentTypesXml ext contentType = ?r"
    using False by (simp add: addContentType_def Let_def)
  show ?thesis
  proof (cases \<open>js_includes contentTypesXml ''</Types>''\<close>)
    case True
    have dR: "CHR ''$'' \<notin> set ?R" using de dt by simp
    have "js_includes ?r ?R"
      unfolding replaceAll_str_def using dR True by (rule replace_g_lit_present)
    moreover have "js_includes ?R ?decl"
    proof -
      have \<open>?R = ''<Default '' @ ?decl @ ('' ContentType="'' @ contentType @ ''" />'' @
            ''\<newline>'' @ ''</Types>'')\<close> by simp
      then show ?thesis unfolding js_includes_iff by blast
    qed
    ultimately have "js_includes ?r ?decl" by (rule js_includes_trans)
    then have "addContentType ?r ext contentType' = ?r" by (simp add: addContentType_def Let_def)
    with first show ?thesis by simp
  next
    case no: False
    then have "?r = contentTypesXml" by (simp add: replaceAll_str_absent)
    with first False no show ?thesis by (simp add: addContentType_def Let_def replaceAll_str_absent)
  qed
qed

lemma addContentType_png_twice:
  \<open>addContentType (addContentType ''<Types></Types>'' ''png'' ''image/png'') ''png'' ''image/png'' =
     ''<Types><Default Extension="png" ContentType="image/png" />\<newline></Types>'' \<and>
   occurrences
     (addContentType (addContentType ''<Types></Types>'' ''png'' ''image/png'') ''png'' ''image/png'')
     ''Extension="png"'' = 1\<close>
  by (simp add: addContentType_def Let_def replaceAll_str_def replace_g.simps chr_eq_def)

end
